theory Spec2Isabelle
  imports Complex_Main
begin

section \<open>The Jacobian-based saliency map attack of \<open>art/attacks/saliency_map.py\<close>\<close>

text \<open>
  Feature values, gradients and the parameters \<open>theta\<close> and \<open>gamma\<close> are Python floats;
  they are modelled as real numbers (rounding, NaN and overflow are outside the model;
  \<open>exact_steps\<close> below describes the inputs on which the additions of the code round nothing). The
  infinities that \<open>_saliency_map\<close> writes into the gradient array are modelled by the type
  \<open>ext\<close>. A two-dimensional numpy array is a list of rows; numpy arrays that the code
  mutates live in a store, and a Python variable holds the address of its array.
\<close>

subsection \<open>Errors\<close>

datatype error = ValueError string

subsection \<open>Floats with infinities\<close>

datatype ext = NegInf | Fin real | PosInf

instantiation ext :: linorder
begin

fun less_eq_ext :: "ext \<Rightarrow> ext \<Rightarrow> bool" where
  "less_eq_ext NegInf _ = True"
| "less_eq_ext (Fin a) NegInf = False"
| "less_eq_ext (Fin a) (Fin b) = (a \<le> b)"
| "less_eq_ext (Fin a) PosInf = True"
| "less_eq_ext PosInf PosInf = True"
| "less_eq_ext PosInf _ = False"

definition less_ext :: "ext \<Rightarrow> ext \<Rightarrow> bool" where
  "less_ext a b = (a \<le> b \<and> \<not> b \<le> a)"

instance
proof
  fix x y z :: ext
  show "(x < y) = (x \<le> y \<and> \<not> y \<le> x)"
    by (simp add: less_ext_def)
  show "x \<le> x"
    by (cases x) simp_all
  show "x \<le> y \<Longrightarrow> y \<le> z \<Longrightarrow> x \<le> z"
    by (cases x; cases y; cases z) simp_all
  show "x \<le> y \<Longrightarrow> y \<le> x \<Longrightarrow> x = y"
    by (cases x; cases y) simp_all
  show "x \<le> y \<or> y \<le> x"
    by (cases x; cases y) auto
qed

end

text \<open>Unary minus on floats with infinities (\<open>-grads\<close>).\<close>

fun ext_neg :: "ext \<Rightarrow> ext" where
  "ext_neg NegInf = PosInf"
| "ext_neg (Fin a) = Fin (- a)"
| "ext_neg PosInf = NegInf"

text \<open>\<open>-np.inf * coeff\<close> for the integer \<open>coeff\<close>, which the code computes as 1 or -1.\<close>

definition neg_inf_times :: "int \<Rightarrow> ext" where
  "neg_inf_times coeff = (if 0 < coeff then NegInf else PosInf)"

subsection \<open>Arrays and the numpy operations the attack uses\<close>

type_synonym ndarray = "real list list"

text \<open>\<open>np.product(dims)\<close>.\<close>

definition np_product :: "nat list \<Rightarrow> nat" where
  "np_product dims = prod_list dims"

text \<open>
  \<open>np.argmax\<close> of one row: the index of the first maximal entry. (numpy raises on an empty
  row; the rows here are the class scores of a classifier, which has at least one class.)
\<close>

fun argmax_from :: "real list \<Rightarrow> nat \<Rightarrow> nat list \<Rightarrow> nat" where
  "argmax_from r b [] = b"
| "argmax_from r b (k # ks) = argmax_from r (if r ! b < r ! k then k else b) ks"

definition np_argmax :: "ndarray \<Rightarrow> nat list" where
  "np_argmax a = map (\<lambda>r. argmax_from r 0 [1..<length r]) a"

text \<open>
  \<open>np.argpartition(g, -2)[-2:]\<close> on one row \<open>g\<close> with at least two entries: the indices of
  the second largest and of the largest entry, in this order. numpy leaves the choice among
  equal entries open; the model takes the first index.
\<close>

fun arg_best :: "ext list \<Rightarrow> nat \<Rightarrow> nat list \<Rightarrow> nat" where
  "arg_best g b [] = b"
| "arg_best g b (k # ks) = arg_best g (if g ! b < g ! k then k else b) ks"

definition argpartition_last2 :: "ext list \<Rightarrow> nat \<times> nat" where
  "argpartition_last2 g =
     (let top = arg_best g 0 [1..<length g];
          rest = filter (\<lambda>k. k \<noteq> top) [0..<length g];
          second = arg_best g (hd rest) (tl rest)
      in (second, top))"

text \<open>Advanced indexing \<open>a[idx]\<close> by a list of row indices: the selected rows, as a new array.\<close>

definition take_rows :: "'a list \<Rightarrow> nat list \<Rightarrow> 'a list" where
  "take_rows a idx = map (\<lambda>i. a ! i) idx"

text \<open>\<open>a[np.arange(len(a)), cols]\<close>: from row \<open>k\<close> the entry in column \<open>cols[k]\<close>.\<close>

definition take_cells :: "ndarray \<Rightarrow> nat list \<Rightarrow> real list" where
  "take_cells a cols = map (\<lambda>(row, c). row ! c) (zip a cols)"

text \<open>\<open>a[np.arange(len(a)), cols] = vals\<close>, as the new value of \<open>a\<close>.\<close>

definition put_cells :: "ndarray \<Rightarrow> nat list \<Rightarrow> real list \<Rightarrow> ndarray" where
  "put_cells a cols vals = map (\<lambda>(row, c, v). row[c := v]) (zip a (zip cols vals))"

text \<open>\<open>a[idx] = vals\<close> for a list of row indices, as the new value of \<open>a\<close>.\<close>

fun put_rows :: "ndarray \<Rightarrow> nat list \<Rightarrow> ndarray \<Rightarrow> ndarray" where
  "put_rows a (i # idx) (v # vals) = put_rows (a[i := v]) idx vals"
| "put_rows a _ _ = a"

text \<open>\<open>a[mask] = v\<close> for a boolean mask of the shape of \<open>a\<close>, as the new value of \<open>a\<close>.\<close>

definition put_mask :: "'a list list \<Rightarrow> bool list list \<Rightarrow> 'a \<Rightarrow> 'a list list" where
  "put_mask a msk v =
     map (\<lambda>(row, mrow). map (\<lambda>(old, m). if m then v else old) (zip row mrow)) (zip a msk)"

text \<open>An elementwise test of an array, such as \<open>batch < clip_max\<close>.\<close>

definition elementwise :: "('a \<Rightarrow> bool) \<Rightarrow> 'a list list \<Rightarrow> bool list list" where
  "elementwise p a = map (map p) a"

text \<open>\<open>np.where(cond)[0]\<close>: the indices at which a boolean vector is true.\<close>

definition np_where :: "bool list \<Rightarrow> nat list" where
  "np_where cond = filter (\<lambda>i. cond ! i) [0..<length cond]"

text \<open>\<open>np.sum(a, axis=1)\<close>.\<close>

definition row_sums :: "ndarray \<Rightarrow> real list" where
  "row_sums a = map sum_list a"

subsection \<open>The classifier and the attack object\<close>

text \<open>
  The classifier is an external collaborator. \<open>predict\<close> returns one row of class scores per
  sample, \<open>class_gradient x label\<close> one row of gradients (of the score of the class
  \<open>label[k]\<close> with respect to the features of sample \<open>k\<close>) per sample; samples are passed
  as rows of flattened features.
\<close>

record classifier =
  predict :: "ndarray \<Rightarrow> ndarray"
  class_gradient :: "ndarray \<Rightarrow> nat list \<Rightarrow> ndarray"
  clip_values :: "real \<times> real"
  nb_classes :: nat

record attack =
  classifier :: classifier
  theta :: real
  gamma :: real
  batch_size :: int
  nb_features :: nat

text \<open>The keyword arguments of \<open>generate\<close> and \<open>set_params\<close>; \<open>None\<close> is an absent key
  (for \<open>y\<close> also the value \<open>None\<close>).\<close>

record kwargs =
  kw_y :: "ndarray option"
  kw_theta :: "real option"
  kw_gamma :: "real option"
  kw_batch_size :: "int option"

text \<open>
  Modelled from the spec: \<open>Attack.set_params\<close> of \<open>art/attacks/attack.py\<close>, the base-class
  method that \<open>set_params\<close> calls first, is not among the sources. It saves each keyword
  argument that names an attack parameter (the configuration surface \<open>theta\<close>, \<open>gamma\<close>,
  \<open>batch_size\<close>) as an attribute and leaves the other attributes as they are.
\<close>

definition Attack_set_params :: "attack \<Rightarrow> kwargs \<Rightarrow> attack" where
  "Attack_set_params self kw =
     self\<lparr>theta := (case kw_theta kw of None \<Rightarrow> theta self | Some v \<Rightarrow> v),
          gamma := (case kw_gamma kw of None \<Rightarrow> gamma self | Some v \<Rightarrow> v),
          batch_size := (case kw_batch_size kw of None \<Rightarrow> batch_size self | Some v \<Rightarrow> v)\<rparr>"

definition set_params :: "attack \<Rightarrow> kwargs \<Rightarrow> error + attack" where
  "set_params self kw =
     (let self = Attack_set_params self kw in
      if gamma self \<le> 0 \<or> gamma self > 1 then
        Inl (ValueError ''The total perturbation percentage `gamma` must be between 0 and 1.'')
      else if batch_size self \<le> 0 then
        Inl (ValueError ''The batch size `batch_size` has to be positive.'')
      else Inr self)"


subsection \<open>The saliency map\<close>

text \<open>
  The gradient rows after \<open>grads[used_features == 1] = -np.inf * coeff\<close>, where
  \<open>used_features = 1 - search_space\<close>.
\<close>

definition masked_grads :: "attack \<Rightarrow> ndarray \<Rightarrow> ndarray \<Rightarrow> ext list list" where
  "masked_grads self grads search_space =
     (let used_features = map (map (\<lambda>v. 1 - v)) search_space;
          coeff = 2 * (if theta self > 0 then 1 else 0) - 1
      in put_mask (map (map Fin) grads) (elementwise (\<lambda>u. u = 1) used_features)
           (neg_inf_times coeff))"

definition saliency_map :: "attack \<Rightarrow> ndarray \<Rightarrow> nat list \<Rightarrow> ndarray \<Rightarrow> error + (nat \<times> nat) list" where
  "saliency_map self x target search_space =
     (let grads = class_gradient (classifier self) x target;
          grads = masked_grads self grads search_space
      in if nb_features self < 2 then Inl (ValueError ''kth out of bounds'')
         else if theta self > 0 then Inr (map argpartition_last2 grads)
         else Inr (map (\<lambda>g. argpartition_last2 (map ext_neg g)) grads))"

subsection \<open>The store\<close>

text \<open>
  The arrays that \<open>generate\<close> reads and writes are objects of a store: \<open>heap s p\<close> is the
  content of the array at address \<open>p\<close>, and \<open>nxt s\<close> is the next free address. \<open>np.copy\<close>,
  \<open>np.zeros_like\<close> and advanced indexing \<open>a[idx]\<close> allocate a new array; a basic slice
  \<open>a[i:j]\<close> is a view, which shares the array of \<open>a\<close>.
\<close>

record store =
  heap :: "nat \<Rightarrow> ndarray"
  nxt :: nat

definition alloc :: "ndarray \<Rightarrow> store \<Rightarrow> nat \<times> store" where
  "alloc a s = (nxt s, \<lparr>heap = (heap s)(nxt s := a), nxt = Suc (nxt s)\<rparr>)"

definition update_array :: "nat \<Rightarrow> (ndarray \<Rightarrow> ndarray) \<Rightarrow> store \<Rightarrow> store" where
  "update_array p f s = s\<lparr>heap := (heap s)(p := f (heap s p))\<rparr>"

text \<open>An array as Python sees it: the address of its data and its shape.\<close>

record ndarray_ref =
  buf :: nat
  shape :: "nat list"

text \<open>The view \<open>a[i:j]\<close> of the rows \<open>i\<close> to \<open>j - 1\<close> of the array at \<open>base\<close>
  (Python cuts both bounds at the number of rows).\<close>

record slice =
  base :: nat
  start :: nat
  stop :: nat

definition basic_slice :: "store \<Rightarrow> nat \<Rightarrow> nat \<Rightarrow> nat \<Rightarrow> slice" where
  "basic_slice s p i j =
     \<lparr>base = p, start = min i (length (heap s p)), stop = min j (length (heap s p))\<rparr>"

definition slice_rows :: "store \<Rightarrow> slice \<Rightarrow> ndarray" where
  "slice_rows s v = take (stop v - start v) (drop (start v) (heap s (base v)))"

text \<open>\<open>xs[i:j]\<close> of an array that is never written (\<open>preds\<close>, \<open>targets\<close>).\<close>

definition slice_list :: "'a list \<Rightarrow> nat \<Rightarrow> nat \<Rightarrow> 'a list" where
  "slice_list xs i j = take (j - i) (drop i xs)"

definition zeros_like :: "ndarray \<Rightarrow> ndarray" where
  "zeros_like a = map (map (\<lambda>_. 0)) a"

subsection \<open>One iteration of the loop of a batch\<close>

text \<open>
  The body of \<open>while len(active_indices) != 0\<close>, block by block. \<open>batch\<close> is a view of
  \<open>x_adv\<close>; \<open>search_space\<close> and \<open>all_feat\<close> are addresses.
\<close>

text \<open>
  ``Update used features'' (lines 95 to 97). \<open>all_feat[active_indices]\<close> is advanced
  indexing: it makes a new array (\<open>c0\<close>, then \<open>c1\<close>), and the assignment
  \<open>all_feat[active_indices][np.arange(n), feat_ind[:, 0]] = 1\<close> writes into that new array.
\<close>

definition update_used_features :: "nat \<Rightarrow> nat list \<Rightarrow> (nat \<times> nat) list \<Rightarrow> store \<Rightarrow> store" where
  "update_used_features all_feat active_indices feat_ind s =
     (let ones = replicate (length active_indices) 1;
          (c0, s) = alloc (take_rows (heap s all_feat) active_indices) s;
          s = update_array c0 (\<lambda>a. put_cells a (map fst feat_ind) ones) s;
          (c1, s) = alloc (take_rows (heap s all_feat) active_indices) s
      in update_array c1 (\<lambda>a. put_cells a (map snd feat_ind) ones) s)"

text \<open>``Prepare update depending of theta'' (lines 99 to 103): \<open>clip_func, clip_value\<close>.\<close>

definition prepare_update :: "attack \<Rightarrow> (real \<Rightarrow> real \<Rightarrow> real) \<times> real" where
  "prepare_update self =
     (let (clip_min, clip_max) = clip_values (classifier self)
      in if theta self > 0 then (min, clip_max) else (max, clip_min))"

text \<open>
  ``Update adversarial examples'' (lines 105 to 111). \<open>tmp_batch = batch[active_indices]\<close>
  is a new array, which \<open>batch[active_indices] = tmp_batch\<close> writes back through the view.
  \<open>v + theta\<close> is the sum of real numbers. The code adds floats, and its sum is this one when
  it needs no rounding, as on the inputs that \<open>exact_steps\<close> below describes; a float sum
  that is rounded can equal \<open>v\<close> for \<open>theta \<noteq> 0\<close>, so that the progress of the loop is
  stated for those inputs only.
\<close>

definition update_adversarial :: "attack \<Rightarrow> slice \<Rightarrow> nat list \<Rightarrow> (nat \<times> nat) list \<Rightarrow> store \<Rightarrow> store" where
  "update_adversarial self batch active_indices feat_ind s =
     (let (clip_func, clip_value) = prepare_update self;
          (tmp_batch, s) = alloc (take_rows (slice_rows s batch) active_indices) s;
          s = update_array tmp_batch (\<lambda>a. put_cells a (map fst feat_ind)
                (map (\<lambda>v. clip_func clip_value (v + theta self))
                   (take_cells a (map fst feat_ind)))) s;
          s = update_array tmp_batch (\<lambda>a. put_cells a (map snd feat_ind)
                (map (\<lambda>v. clip_func clip_value (v + theta self))
                   (take_cells a (map snd feat_ind)))) s
      in update_array (base batch) (\<lambda>a. put_rows a
           (map (\<lambda>i. start batch + i) active_indices) (heap s tmp_batch)) s)"

text \<open>``Remove indices from search space if max/min values were reached'' (line 114).\<close>

definition update_search_space :: "attack \<Rightarrow> slice \<Rightarrow> nat \<Rightarrow> store \<Rightarrow> store" where
  "update_search_space self batch search_space s =
     (let (clip_func, clip_value) = prepare_update self
      in update_array search_space (\<lambda>a. put_mask a
           (elementwise (\<lambda>v. v = clip_value) (slice_rows s batch)) 0) s)"

text \<open>``Recompute model prediction'' and ``Update active_indices'' (lines 116 to 122).\<close>

definition update_active_indices :: "attack \<Rightarrow> slice \<Rightarrow> nat \<Rightarrow> nat \<Rightarrow> nat list \<Rightarrow> store \<Rightarrow> nat list" where
  "update_active_indices self batch search_space all_feat target s =
     (let current_pred = np_argmax (predict (classifier self) (slice_rows s batch))
      in np_where
           (map (\<lambda>((p, t), (used, eligible)).
                   p \<noteq> t \<and> used / real (nb_features self) \<le> gamma self \<and> eligible > 0)
              (zip (zip current_pred target)
                 (zip (row_sums (heap s all_feat)) (row_sums (heap s search_space))))))"

text \<open>The whole body: the new \<open>active_indices\<close> and the new store, or the error raised.\<close>

definition loop_body ::
  "attack \<Rightarrow> slice \<Rightarrow> nat \<Rightarrow> nat \<Rightarrow> nat list \<Rightarrow> nat list \<Rightarrow> store \<Rightarrow> error + (nat list \<times> store)" where
  "loop_body self batch search_space all_feat target active_indices s =
     (case saliency_map self (take_rows (slice_rows s batch) active_indices)
             (take_rows target active_indices)
             (take_rows (heap s search_space) active_indices) of
        Inl e \<Rightarrow> Inl e
      | Inr feat_ind \<Rightarrow>
         (let s = update_used_features all_feat active_indices feat_ind s;
              s = update_adversarial self batch active_indices feat_ind s;
              s = update_search_space self batch search_space s
          in Inr (update_active_indices self batch search_space all_feat target s, s)))"

text \<open>
  The loop. It runs as long as \<open>active_indices\<close> is not empty, which may be forever; the
  model counts the iterations down from \<open>fuel\<close>, and \<open>None\<close> says that the loop did not stop
  within \<open>fuel\<close> iterations.
\<close>

fun while_active ::
  "nat \<Rightarrow> attack \<Rightarrow> slice \<Rightarrow> nat \<Rightarrow> nat \<Rightarrow> nat list \<Rightarrow> nat list \<Rightarrow> store \<Rightarrow> (error + store) option" where
  "while_active 0 self batch search_space all_feat target active_indices s =
     (if length active_indices = 0 then Some (Inr s) else None)"
| "while_active (Suc fuel) self batch search_space all_feat target active_indices s =
     (if length active_indices = 0 then Some (Inr s)
      else case loop_body self batch search_space all_feat target active_indices s of
             Inl e \<Rightarrow> Some (Inl e)
           | Inr (active_indices, s) \<Rightarrow>
               while_active fuel self batch search_space all_feat target active_indices s)"

subsection \<open>One batch\<close>

text \<open>``Initialize the search space'' (lines 77 to 82).\<close>

definition init_search_space :: "attack \<Rightarrow> slice \<Rightarrow> store \<Rightarrow> nat \<times> store" where
  "init_search_space self batch s =
     (let (clip_min, clip_max) = clip_values (classifier self);
          (search_space, s) = alloc (zeros_like (slice_rows s batch)) s
      in (search_space,
          if theta self > 0
          then update_array search_space (\<lambda>a. put_mask a
                 (elementwise (\<lambda>v. v < clip_max) (slice_rows s batch)) 1) s
          else update_array search_space (\<lambda>a. put_mask a
                 (elementwise (\<lambda>v. v > clip_min) (slice_rows s batch)) 1) s))"

text \<open>The body of the loop over the batches (lines 73 to 124).\<close>

definition process_batch ::
  "nat \<Rightarrow> attack \<Rightarrow> nat \<Rightarrow> nat list \<Rightarrow> nat list \<Rightarrow> nat \<Rightarrow> store \<Rightarrow> (error + store) option" where
  "process_batch fuel self x_adv preds targets batch_id s =
     (let batch_index_1 = batch_id * nat (batch_size self);
          batch_index_2 = (batch_id + 1) * nat (batch_size self);
          batch = basic_slice s x_adv batch_index_1 batch_index_2;
          (search_space, s) = init_search_space self batch s;
          current_pred = slice_list preds batch_index_1 batch_index_2;
          target = slice_list targets batch_index_1 batch_index_2;
          active_indices = np_where (map (\<lambda>(p, t). p \<noteq> t) (zip current_pred target));
          (all_feat, s) = alloc (zeros_like (slice_rows s batch)) s
      in case while_active fuel self batch search_space all_feat target active_indices s of
           None \<Rightarrow> None
         | Some (Inl e) \<Rightarrow> Some (Inl e)
         | Some (Inr s) \<Rightarrow>
             Some (Inr (update_array x_adv (\<lambda>a. put_rows a
                          [start batch..<stop batch] (slice_rows s batch)) s)))"

fun for_batches ::
  "nat \<Rightarrow> attack \<Rightarrow> nat \<Rightarrow> nat list \<Rightarrow> nat list \<Rightarrow> nat list \<Rightarrow> store \<Rightarrow> (error + store) option" where
  "for_batches fuel self x_adv preds targets [] s = Some (Inr s)"
| "for_batches fuel self x_adv preds targets (batch_id # ids) s =
     (case process_batch fuel self x_adv preds targets batch_id s of
        None \<Rightarrow> None
      | Some (Inl e) \<Rightarrow> Some (Inl e)
      | Some (Inr s) \<Rightarrow> for_batches fuel self x_adv preds targets ids s)"

subsection \<open>Target classes\<close>

text \<open>
  Modelled from the spec: \<open>random_targets\<close> of \<open>art/utils.py\<close> is not among the sources.
  For each sample it draws a target class uniformly from all classes except the class
  \<open>labels[i]\<close>, and returns the targets as one-hot rows. The random source is explicit:
  \<open>rnd i\<close> is the raw draw for sample \<open>i\<close>, and the class drawn is the one at position
  \<open>rnd i mod n\<close> among the \<open>n\<close> other classes. With no other class there is nothing to draw.
\<close>

definition to_categorical :: "nat \<Rightarrow> nat \<Rightarrow> real list" where
  "to_categorical c nb = map (\<lambda>k. if k = c then 1 else 0) [0..<nb]"

definition other_classes :: "nat \<Rightarrow> nat \<Rightarrow> nat list" where
  "other_classes nb label = filter (\<lambda>c. c \<noteq> label) [0..<nb]"

definition random_choice :: "nat \<Rightarrow> nat list \<Rightarrow> nat" where
  "random_choice r xs = xs ! (r mod length xs)"

definition random_targets :: "(nat \<Rightarrow> nat) \<Rightarrow> nat list \<Rightarrow> nat \<Rightarrow> error + ndarray" where
  "random_targets rnd labels nb =
     (if labels \<noteq> [] \<and> (\<exists>l \<in> set labels. other_classes nb l = [])
      then Inl (ValueError ''a must be non-empty'')
      else Inr (map (\<lambda>(i, l). to_categorical (random_choice (rnd i) (other_classes nb l)) nb)
                  (zip [0..<length labels] labels)))"

text \<open>Lines 63 to 69 of \<open>generate\<close>: the target class of each sample.\<close>

definition resolve_targets :: "(nat \<Rightarrow> nat) \<Rightarrow> attack \<Rightarrow> kwargs \<Rightarrow> nat list \<Rightarrow> error + nat list" where
  "resolve_targets rnd self kw preds =
     (case kw_y kw of
        None \<Rightarrow>
          (case random_targets rnd preds (nb_classes (classifier self)) of
             Inl e \<Rightarrow> Inl e
           | Inr y \<Rightarrow> Inr (np_argmax y))
      | Some y \<Rightarrow> Inr (np_argmax y))"

subsection \<open>\<open>generate\<close>\<close>

text \<open>
  \<open>generate fuel rnd self x kw s\<close>: the call \<open>self.generate(x, **kw)\<close> in the store \<open>s\<close>.
  The result is \<open>None\<close> when the loop of some batch does not stop within \<open>fuel\<close> iterations,
  an error when the call raises, and otherwise the returned array, the attack object with the
  attributes that the call has set, and the store.

  The rows of the array at \<open>buf x\<close> are the samples with their features flattened, so that
  \<open>np.reshape\<close> to \<open>(-1, nb_features)\<close> and back to \<open>x.shape\<close> changes the shape only; numpy
  refuses the first one when \<open>nb_features\<close> is 0. The success rate that \<open>generate\<close> logs is
  not part of the model.
\<close>

definition generate ::
  "nat \<Rightarrow> (nat \<Rightarrow> nat) \<Rightarrow> attack \<Rightarrow> ndarray_ref \<Rightarrow> kwargs \<Rightarrow> store
     \<Rightarrow> (error + ndarray_ref \<times> attack \<times> store) option" where
  "generate fuel rnd self x kw s =
     (case set_params self kw of
        Inl e \<Rightarrow> Some (Inl e)
      | Inr self \<Rightarrow>
         (let dims = tl (shape x);
              self = self\<lparr>nb_features := np_product dims\<rparr>
          in if nb_features self = 0
             then Some (Inl (ValueError ''cannot reshape array of size 0''))
             else
               (let (x_adv, s) = alloc (heap s (buf x)) s;
                    preds = np_argmax (predict (classifier self) (heap s (buf x)))
                in case resolve_targets rnd self kw preds of
                     Inl e \<Rightarrow> Some (Inl e)
                   | Inr targets \<Rightarrow>
                      (let nb_batches = nat \<lceil>real (length (heap s x_adv))
                                              / real_of_int (batch_size self)\<rceil>
                       in case for_batches fuel self x_adv preds targets [0..<nb_batches] s of
                            None \<Rightarrow> None
                          | Some (Inl e) \<Rightarrow> Some (Inl e)
                          | Some (Inr s) \<Rightarrow>
                              Some (Inr (\<lparr>buf = x_adv, shape = shape x\<rparr>, self, s))))))"

subsection \<open>Notions used in the statements\<close>

text \<open>
  \<open>clip_bound\<close> is the \<open>clip_value\<close> of an iteration, \<open>perturbed self v\<close> is
  \<open>clip_func(clip_value, v + theta)\<close>, and \<open>perturb_row\<close> is what the two assignments to
  \<open>tmp_batch\<close> do to the row of a sample whose selected features are \<open>fi\<close>.
\<close>

definition clip_bound :: "attack \<Rightarrow> real" where
  "clip_bound self = snd (prepare_update self)"

definition perturbed :: "attack \<Rightarrow> real \<Rightarrow> real" where
  "perturbed self v = fst (prepare_update self) (snd (prepare_update self)) (v + theta self)"

definition perturb_row :: "attack \<Rightarrow> real list \<Rightarrow> nat \<times> nat \<Rightarrow> real list" where
  "perturb_row self row fi =
     (let row = row[fst fi := perturbed self (row ! fst fi)]
      in row[snd fi := perturbed self (row ! snd fi)])"

text \<open>
  The classifier returns one row of scores per sample, and gradients of the shape of its
  input: one row per sample, one gradient per feature.
\<close>

definition wf_classifier :: "nat \<Rightarrow> classifier \<Rightarrow> bool" where
  "wf_classifier n clf \<longleftrightarrow>
     (\<forall>x. length (predict clf x) = length x) \<and>
     (\<forall>x t. length (class_gradient clf x t) = length x \<and>
            (\<forall>g \<in> set (class_gradient clf x t). length g = n))"

text \<open>
  The state at the head of the loop of a batch: the three arrays are allocated and
  different, the view lies within \<open>x_adv\<close>, and the search space has the shape of the batch,
  one row of \<open>nb_features\<close> entries per sample.
\<close>

definition batch_ok :: "attack \<Rightarrow> slice \<Rightarrow> nat \<Rightarrow> nat \<Rightarrow> store \<Rightarrow> bool" where
  "batch_ok self batch search_space all_feat s \<longleftrightarrow>
     base batch < nxt s \<and> search_space < nxt s \<and> all_feat < nxt s \<and>
     search_space \<noteq> base batch \<and> all_feat \<noteq> base batch \<and> all_feat \<noteq> search_space \<and>
     start batch \<le> stop batch \<and> stop batch \<le> length (heap s (base batch)) \<and>
     length (heap s search_space) = stop batch - start batch \<and>
     (\<forall>r \<in> set (slice_rows s batch). length r = nb_features self) \<and>
     (\<forall>r \<in> set (heap s search_space). length r = nb_features self)"

text \<open>
  What one iteration does, on the rows alone: the batch after ``Update adversarial
  examples'', the search space after line 114, and the condition of lines 120 to 122. The
  lemma \<open>loop_body_Inr\<close> below shows that \<open>loop_body\<close> computes these.
\<close>

definition new_batch :: "attack \<Rightarrow> ndarray \<Rightarrow> nat list \<Rightarrow> (nat \<times> nat) list \<Rightarrow> ndarray" where
  "new_batch self rows active_indices feat_ind =
     put_rows rows active_indices
       (map (\<lambda>(row, c). perturb_row self row c) (zip (take_rows rows active_indices) feat_ind))"

definition new_search_space :: "attack \<Rightarrow> ndarray \<Rightarrow> ndarray \<Rightarrow> ndarray" where
  "new_search_space self search_space rows =
     put_mask search_space (elementwise (\<lambda>v. v = clip_bound self) rows) 0"

definition still_active :: "attack \<Rightarrow> nat list \<Rightarrow> nat list \<Rightarrow> ndarray \<Rightarrow> ndarray \<Rightarrow> nat list" where
  "still_active self current_pred target all_feat search_space =
     np_where
       (map (\<lambda>((p, t), (used, eligible)).
               p \<noteq> t \<and> used / real (nb_features self) \<le> gamma self \<and> eligible > 0)
          (zip (zip current_pred target) (zip (row_sums all_feat) (row_sums search_space))))"

text \<open>
  The search space and the active set with which the loop of a batch starts (lines 78 to 82
  and line 87), the view of batch \<open>batch_id\<close>, the store at the head of its loop (the search
  space at the first free address, \<open>all_feat\<close> at the next one), and the assignment of line
  124. The lemma \<open>process_batch_eq\<close> below shows that \<open>process_batch\<close> is the loop between
  \<open>batch_start\<close> and \<open>write_back\<close>.
\<close>

definition initial_search_space :: "attack \<Rightarrow> ndarray \<Rightarrow> ndarray" where
  "initial_search_space self rows =
     put_mask (zeros_like rows)
       (elementwise (\<lambda>v. if theta self > 0 then v < snd (clip_values (classifier self))
                          else v > fst (clip_values (classifier self))) rows) 1"

definition initial_active :: "nat list \<Rightarrow> nat list \<Rightarrow> nat list" where
  "initial_active current_pred target = np_where (map (\<lambda>(p, t). p \<noteq> t) (zip current_pred target))"

definition batch_of :: "attack \<Rightarrow> store \<Rightarrow> nat \<Rightarrow> nat \<Rightarrow> slice" where
  "batch_of self s x_adv batch_id =
     basic_slice s x_adv (batch_id * nat (batch_size self)) ((batch_id + 1) * nat (batch_size self))"

definition batch_start :: "attack \<Rightarrow> slice \<Rightarrow> store \<Rightarrow> store" where
  "batch_start self batch s =
     \<lparr>heap = (heap s)(nxt s := initial_search_space self (slice_rows s batch),
                       Suc (nxt s) := zeros_like (slice_rows s batch)),
      nxt = Suc (Suc (nxt s))\<rparr>"

definition write_back :: "slice \<Rightarrow> store \<Rightarrow> store" where
  "write_back batch s =
     update_array (base batch) (\<lambda>a. put_rows a [start batch..<stop batch] (slice_rows s batch)) s"

text \<open>
  All feature values of an array lie within the clip values; an array has \<open>n\<close> rows of
  \<open>nb_features\<close> entries; the argument \<open>x\<close> of \<open>generate\<close> is an allocated array whose rows
  are the flattened samples of the shape it declares.
\<close>

definition within_clip :: "attack \<Rightarrow> ndarray \<Rightarrow> bool" where
  "within_clip self a \<longleftrightarrow>
     (\<forall>r \<in> set a. \<forall>v \<in> set r.
        fst (clip_values (classifier self)) \<le> v \<and> v \<le> snd (clip_values (classifier self)))"

definition array_ok :: "attack \<Rightarrow> nat \<Rightarrow> ndarray \<Rightarrow> bool" where
  "array_ok self n a \<longleftrightarrow> length a = n \<and> (\<forall>r \<in> set a. length r = nb_features self)"

definition wf_input :: "store \<Rightarrow> ndarray_ref \<Rightarrow> bool" where
  "wf_input s x \<longleftrightarrow>
     buf x < nxt s \<and> shape x \<noteq> [] \<and> length (heap s (buf x)) = hd (shape x) \<and>
     (\<forall>r \<in> set (heap s (buf x)). length r = np_product (tl (shape x)))"

text \<open>
  The loop on the rows alone. The lemma \<open>while_active_rows\<close> below shows that
  \<open>while_active\<close> computes it; the runs on concrete inputs are evaluated through it.
\<close>

fun run_rows ::
  "nat \<Rightarrow> attack \<Rightarrow> nat list \<Rightarrow> ndarray \<Rightarrow> nat list \<Rightarrow> ndarray \<Rightarrow> ndarray
     \<Rightarrow> (error + ndarray \<times> ndarray) option" where
  "run_rows 0 self target all_feat active rows search_space =
     (if active = [] then Some (Inr (rows, search_space)) else None)"
| "run_rows (Suc fuel) self target all_feat active rows search_space =
     (if active = [] then Some (Inr (rows, search_space))
      else case saliency_map self (take_rows rows active) (take_rows target active)
                  (take_rows search_space active) of
             Inl e \<Rightarrow> Some (Inl e)
           | Inr feat_ind \<Rightarrow>
              (let rows = new_batch self rows active feat_ind;
                   search_space = new_search_space self search_space rows
               in run_rows fuel self target all_feat
                    (still_active self (np_argmax (predict (classifier self) rows)) target
                       all_feat search_space)
                    rows search_space))"

text \<open>
  The measure of the loop. A feature value is eligible when it is strictly on the inner side
  of the clip bound that \<open>theta\<close> moves it to; \<open>steps_to_bound\<close> is the number of steps of size
  \<open>theta\<close> that take an eligible value to the bound, and \<open>total_steps\<close> sums it over an array.
  \<open>search_space_ok\<close> says that every feature of the search space has an eligible value, and
  \<open>feat_ind_ok\<close> that the saliency map has returned two different features for each active
  sample.
\<close>

definition eligible_value :: "attack \<Rightarrow> real \<Rightarrow> bool" where
  "eligible_value self v =
     (if theta self > 0 then v < snd (clip_values (classifier self))
      else v > fst (clip_values (classifier self)))"

definition steps_to_bound :: "attack \<Rightarrow> real \<Rightarrow> nat" where
  "steps_to_bound self v =
     (if eligible_value self v then nat \<lceil>(clip_bound self - v) / theta self\<rceil> else 0)"

definition row_steps :: "attack \<Rightarrow> real list \<Rightarrow> nat" where
  "row_steps self r = sum_list (map (steps_to_bound self) r)"

definition total_steps :: "attack \<Rightarrow> ndarray \<Rightarrow> nat" where
  "total_steps self a = sum_list (map (row_steps self) a)"

definition search_space_ok :: "attack \<Rightarrow> ndarray \<Rightarrow> ndarray \<Rightarrow> bool" where
  "search_space_ok self rows search_space \<longleftrightarrow>
     (\<forall>i < length rows. \<forall>j < nb_features self.
        search_space ! i ! j \<noteq> 0 \<longrightarrow> eligible_value self (rows ! i ! j))"

definition feat_ind_ok :: "nat \<Rightarrow> nat list \<Rightarrow> (nat \<times> nat) list \<Rightarrow> bool" where
  "feat_ind_ok n active fi \<longleftrightarrow>
     length fi = length active \<and>
     (\<forall>k < length active. fst (fi ! k) \<noteq> snd (fi ! k) \<and> fst (fi ! k) < n \<and> snd (fi ! k) < n)"

text \<open>The content of the array at address \<open>p\<close> when a call of \<open>generate\<close> has returned.\<close>

definition final_array ::
  "(error + ndarray_ref \<times> attack \<times> store) option \<Rightarrow> nat \<Rightarrow> (error + ndarray) option" where
  "final_array res p = map_option (map_sum id (\<lambda>(r, self, s). heap s p)) res"

text \<open>
  The inputs on which every step of the loop is exact. \<open>on_grid p k v\<close> says that \<open>v\<close> is an
  integer multiple of \<open>2 ^ -k\<close> of magnitude at most \<open>2 ^ p * 2 ^ -k\<close>. The sum of two such
  values is a multiple of \<open>2 ^ -k\<close> of magnitude at most \<open>2 ^ (p + 1) * 2 ^ -k\<close> (lemma
  \<open>on_grid_add\<close> below), which a binary floating-point format with \<open>p + 1\<close> bits of precision
  represents exactly when \<open>2 ^ -k\<close> is one of its normal numbers (\<open>p = 23\<close>, \<open>k \<le> 126\<close> for
  \<open>float32\<close>; \<open>p = 52\<close>, \<open>k \<le> 1022\<close> for \<open>float64\<close>): on such values the addition
  \<open>v + theta\<close> of line 106 and the real addition of the model agree. \<open>exact_steps\<close> asks this
  of \<open>theta\<close>, of the clip values and of all feature values of an array.
\<close>

definition on_grid :: "nat \<Rightarrow> nat \<Rightarrow> real \<Rightarrow> bool" where
  "on_grid p k v \<longleftrightarrow> real_of_int \<lfloor>v * 2 ^ k\<rfloor> = v * 2 ^ k \<and> \<bar>v\<bar> * 2 ^ k \<le> 2 ^ p"


text \<open>The active set, the rows of the batch and the used-feature mask after an iteration.\<close>

definition after_iteration ::
  "slice \<Rightarrow> nat \<Rightarrow> error + nat list \<times> store \<Rightarrow> error + nat list \<times> ndarray \<times> ndarray" where
  "after_iteration batch all_feat res =
     map_sum id (\<lambda>(active_indices, s). (active_indices, slice_rows s batch, heap s all_feat)) res"

subsection \<open>Concrete inputs\<close>

text \<open>
  A classifier with two classes on samples of four features that always predicts class 0 and
  whose gradient ranks the features in the order 0, 1, 2, 3; an attack on it; the keyword
  arguments that ask for target class 1; and a store that holds the input array at address 0.
\<close>

definition ex_classifier :: classifier where
  "ex_classifier =
     \<lparr>predict = (\<lambda>x. map (\<lambda>_. [1, 0]) x),
      class_gradient = (\<lambda>x t. map (\<lambda>_. [4, 3, 2, 1]) x),
      clip_values = (0, 1), nb_classes = 2\<rparr>"

definition ex_attack :: "real \<Rightarrow> real \<Rightarrow> attack" where
  "ex_attack th g =
     \<lparr>classifier = ex_classifier, theta = th, gamma = g, batch_size = 128, nb_features = 4\<rparr>"

definition ex_kwargs :: kwargs where
  "ex_kwargs = \<lparr>kw_y = Some [[0, 1]], kw_theta = None, kw_gamma = None, kw_batch_size = None\<rparr>"

definition ex_store :: "ndarray \<Rightarrow> store" where
  "ex_store a = \<lparr>heap = (\<lambda>_. [])(0 := a), nxt = 1\<rparr>"

definition ex_x :: ndarray_ref where
  "ex_x = \<lparr>buf = 0, shape = [1, 2, 2]\<rparr>"

text \<open>
  A second classifier, which predicts class 1 as soon as feature 0 is positive; the random
  source that always draws 0; and, for a single sample \<open>row\<close> at address 0, the view of its
  only batch and the store at the head of the loop of \<open>generate\<close> (\<open>x_adv\<close> at address 1,
  the search space at 2, \<open>all_feat\<close> at 3).
\<close>

definition ex_classifier2 :: classifier where
  "ex_classifier2 =
     \<lparr>predict = (\<lambda>x. map (\<lambda>r. if r ! 0 > 0 then [0, 1] else [1, 0]) x),
      class_gradient = (\<lambda>x t. map (\<lambda>_. [4, 3, 2, 1]) x),
      clip_values = (0, 1), nb_classes = 2\<rparr>"

definition ex_attack2 :: "real \<Rightarrow> real \<Rightarrow> attack" where
  "ex_attack2 th g =
     \<lparr>classifier = ex_classifier2, theta = th, gamma = g, batch_size = 128, nb_features = 4\<rparr>"

definition ex_rnd :: "nat \<Rightarrow> nat" where
  "ex_rnd i = 0"

definition ex_batch :: slice where
  "ex_batch = \<lparr>base = 1, start = 0, stop = 1\<rparr>"

definition ex_loop_store :: "attack \<Rightarrow> real list \<Rightarrow> store" where
  "ex_loop_store self row =
     batch_start self ex_batch \<lparr>heap = (\<lambda>_. [])(0 := [row], 1 := [row]), nxt = 2\<rparr>"

section \<open>Lemmas\<close>

subsection \<open>The store and the array operations\<close>

lemma heap_update_array [simp]:
  "heap (update_array p f s) q = (if q = p then f (heap s p) else heap s q)"
  by (simp add: update_array_def)

lemma nxt_update_array [simp]: "nxt (update_array p f s) = nxt s"
  by (simp add: update_array_def)

lemma length_put_rows [simp]: "length (put_rows a idx vals) = length a"
  by (induction a idx vals rule: put_rows.induct) simp_all

lemma put_rows_notin: "i \<notin> set idx \<Longrightarrow> put_rows a idx vals ! i = a ! i"
  by (induction a idx vals rule: put_rows.induct) auto

lemma put_rows_nth:
  "distinct idx \<Longrightarrow> k < length idx \<Longrightarrow> k < length vals \<Longrightarrow> idx ! k < length a \<Longrightarrow>
   put_rows a idx vals ! (idx ! k) = vals ! k"
proof (induction a idx vals arbitrary: k rule: put_rows.induct)
  case (1 a i idx v vals)
  show ?case
  proof (cases k)
    case 0
    with 1 show ?thesis by (simp add: put_rows_notin)
  next
    case (Suc k')
    with 1 show ?thesis by simp
  qed
qed simp_all

lemma slice_put_rows:
  "\<forall>i \<in> set idx. i < n \<Longrightarrow>
   take n (drop k (put_rows a (map (\<lambda>i. k + i) idx) vals)) = put_rows (take n (drop k a)) idx vals"
proof (induction idx arbitrary: a vals)
  case Nil
  then show ?case by simp
next
  case (Cons i idx)
  show ?case
  proof (cases vals)
    case Nil
    then show ?thesis by simp
  next
    case (Cons v vs)
    with Cons.prems Cons.IH[of "a[k + i := v]" vs] show ?thesis
      by (simp add: drop_update_swap take_update_swap)
  qed
qed

lemma put_cells_map:
  "put_cells a cols (map f (take_cells a cols)) = map (\<lambda>(row, c). row[c := f (row ! c)]) (zip a cols)"
proof (induction a arbitrary: cols)
  case Nil
  then show ?case by (simp add: put_cells_def take_cells_def)
next
  case (Cons r a)
  from Cons.IH show ?case
    by (cases cols) (simp_all add: put_cells_def take_cells_def)
qed

lemma perturb_rows:
  "put_cells (put_cells a (map fst fi) (map f (take_cells a (map fst fi)))) (map snd fi)
     (map f (take_cells (put_cells a (map fst fi) (map f (take_cells a (map fst fi)))) (map snd fi)))
   = map (\<lambda>(row, c). (row[fst c := f (row ! fst c)])[snd c := f ((row[fst c := f (row ! fst c)]) ! snd c)]) (zip a fi)"
proof -
  have "map (\<lambda>(row, c). row[c := f (row ! c)]) (zip (map (\<lambda>(row, c). row[c := f (row ! c)]) (zip a (map fst fi))) (map snd fi))
      = map (\<lambda>(row, c). (row[fst c := f (row ! fst c)])[snd c := f ((row[fst c := f (row ! fst c)]) ! snd c)]) (zip a fi)"
  proof (induction a arbitrary: fi)
    case Nil
    then show ?case by simp
  next
    case (Cons r a)
    then show ?case by (cases fi) simp_all
  qed
  then show ?thesis by (simp only: put_cells_map)
qed

lemma update_used_features_heap:
  "p < nxt s \<Longrightarrow> heap (update_used_features af active fi s) p = heap s p"
  by (simp add: update_used_features_def Let_def alloc_def)

lemma update_used_features_nxt:
  "nxt (update_used_features af active fi s) = Suc (Suc (nxt s))"
  by (simp add: update_used_features_def Let_def alloc_def)

lemma update_adversarial_nxt:
  "nxt (update_adversarial self batch active fi s) = Suc (nxt s)"
  by (simp add: update_adversarial_def Let_def alloc_def case_prod_beta)

lemma update_adversarial_other:
  "p < nxt s \<Longrightarrow> p \<noteq> base batch \<Longrightarrow> heap (update_adversarial self batch active fi s) p = heap s p"
  by (simp add: update_adversarial_def Let_def alloc_def case_prod_beta)

lemma update_adversarial_base:
  "base batch < nxt s \<Longrightarrow>
   heap (update_adversarial self batch active fi s) (base batch) =
     put_rows (heap s (base batch)) (map (\<lambda>i. start batch + i) active)
       (map (\<lambda>(row, c). perturb_row self row c) (zip (take_rows (slice_rows s batch) active) fi))"
proof -
  have pr: "(\<lambda>(row, c). perturb_row self row c) = (\<lambda>(row, c). (row[fst c := perturbed self (row ! fst c)])
        [snd c := perturbed self ((row[fst c := perturbed self (row ! fst c)]) ! snd c)])"
    by (intro ext) (simp add: perturb_row_def Let_def case_prod_beta)
  assume "base batch < nxt s"
  then show ?thesis
    unfolding pr
    by (simp add: update_adversarial_def Let_def alloc_def case_prod_beta perturbed_def perturb_rows)
qed

lemma update_search_space_nxt:
  "nxt (update_search_space self batch ss s) = nxt s"
  by (simp add: update_search_space_def Let_def case_prod_beta)

lemma update_search_space_heap:
  "heap (update_search_space self batch ss s) p =
     (if p = ss then put_mask (heap s ss) (elementwise (\<lambda>v. v = clip_bound self) (slice_rows s batch)) 0
      else heap s p)"
  by (simp add: update_search_space_def Let_def case_prod_beta clip_bound_def)

subsection \<open>The saliency map\<close>

lemma arg_best_props:
  "arg_best g b ks \<in> insert b (set ks) \<and> (\<forall>k \<in> insert b (set ks). g ! k \<le> g ! arg_best g b ks)"
proof (induction ks arbitrary: b)
  case Nil
  then show ?case by simp
next
  case (Cons k ks)
  let ?b = "if g ! b < g ! k then k else b"
  from Cons.IH[of ?b] have m: "arg_best g ?b ks \<in> insert ?b (set ks)"
    and le: "\<forall>j \<in> insert ?b (set ks). g ! j \<le> g ! arg_best g ?b ks" by blast+
  from le have "g ! ?b \<le> g ! arg_best g ?b ks" by blast
  then have "g ! b \<le> g ! arg_best g ?b ks" "g ! k \<le> g ! arg_best g ?b ks"
    by (auto split: if_splits)
  with m le show ?case by (auto split: if_splits)
qed

lemma argpartition_last2_props:
  assumes "2 \<le> length g" and "argpartition_last2 g = (a, b)"
  shows "a < length g" "b < length g" "a \<noteq> b"
    "\<forall>k < length g. g ! k \<le> g ! b" "\<forall>k < length g. k \<noteq> b \<longrightarrow> g ! k \<le> g ! a"
proof -
  let ?n = "length g"
  let ?rest = "filter (\<lambda>k. k \<noteq> b) [0..<?n]"
  from assms have b: "b = arg_best g 0 [1..<?n]"
    by (simp add: argpartition_last2_def Let_def)
  from assms b have a: "a = arg_best g (hd ?rest) (tl ?rest)"
    by (simp add: argpartition_last2_def Let_def)
  have s0: "insert 0 (set [1..<?n]) = {..<?n}" using assms(1) by auto
  have "b \<in> {..<?n} \<and> (\<forall>k \<in> {..<?n}. g ! k \<le> g ! b)"
    unfolding b s0[symmetric] by (rule arg_best_props)
  then show bl: "b < ?n" and bmax: "\<forall>k < ?n. g ! k \<le> g ! b" by simp_all
  have "\<exists>k < ?n. k \<noteq> b"
  proof (cases "b = 0")
    case True
    with assms(1) have "1 < ?n \<and> 1 \<noteq> b" by simp
    then show ?thesis by blast
  next
    case False
    with assms(1) have "0 < ?n \<and> 0 \<noteq> b" by auto
    then show ?thesis by blast
  qed
  then have ne: "?rest \<noteq> []" by (auto simp: filter_empty_conv)
  then have s1: "insert (hd ?rest) (set (tl ?rest)) = set ?rest"
    by (metis list.exhaust_sel list.simps(15))
  have s2: "set ?rest = {k. k < ?n \<and> k \<noteq> b}" by auto
  have "a \<in> {k. k < ?n \<and> k \<noteq> b} \<and> (\<forall>k \<in> {k. k < ?n \<and> k \<noteq> b}. g ! k \<le> g ! a)"
    unfolding a s2[symmetric] s1[symmetric] by (rule arg_best_props)
  then show "a < ?n" "a \<noteq> b" "\<forall>k < ?n. k \<noteq> b \<longrightarrow> g ! k \<le> g ! a" by simp_all
qed

lemma put_mask_nth:
  "i < length a \<Longrightarrow> i < length m \<Longrightarrow> j < length (a ! i) \<Longrightarrow> j < length (m ! i) \<Longrightarrow>
   put_mask a m v ! i ! j = (if m ! i ! j then v else a ! i ! j)"
  by (simp add: put_mask_def)

lemma length_put_mask [simp]: "length (put_mask a m v) = min (length a) (length m)"
  by (simp add: put_mask_def)

lemma length_put_mask_nth:
  "i < length a \<Longrightarrow> i < length m \<Longrightarrow> length (put_mask a m v ! i) = min (length (a ! i)) (length (m ! i))"
  by (simp add: put_mask_def)

lemma masked_grads_shape:
  assumes "length grads = length ss" "\<forall>g \<in> set grads. length g = n" "\<forall>r \<in> set ss. length r = n"
  shows "length (masked_grads self grads ss) = length ss"
    and "k < length ss \<Longrightarrow> length (masked_grads self grads ss ! k) = n"
  using assms by (simp_all add: masked_grads_def Let_def elementwise_def length_put_mask_nth)

lemma masked_grads_nth:
  assumes "length grads = length ss" "\<forall>g \<in> set grads. length g = n" "\<forall>r \<in> set ss. length r = n"
    and "k < length ss" "j < n"
  shows "masked_grads self grads ss ! k ! j =
     (if ss ! k ! j = 0 then (if theta self > 0 then NegInf else PosInf) else Fin (grads ! k ! j))"
  using assms
  by (simp add: masked_grads_def Let_def elementwise_def put_mask_nth neg_inf_times_def)

lemma ext_neg_le [simp]: "ext_neg x \<le> ext_neg y \<longleftrightarrow> y \<le> x"
  by (cases x; cases y) simp_all

lemma saliency_map_Inr:
  "saliency_map self x target ss = Inr fi \<Longrightarrow> 2 \<le> nb_features self"
  by (simp add: saliency_map_def Let_def split: if_splits)

lemma saliency_map_length:
  assumes "saliency_map self x target ss = Inr fi"
    and "wf_classifier (nb_features self) (classifier self)"
    and "length ss = length x" "\<forall>r \<in> set ss. length r = nb_features self"
  shows "length fi = length x"
proof -
  let ?g = "class_gradient (classifier self) x target"
  from assms(2) have g: "length ?g = length ss" "\<forall>r \<in> set ?g. length r = nb_features self"
    using assms(3) by (simp_all add: wf_classifier_def)
  from masked_grads_shape(1)[OF g assms(4)] assms(1,3) show ?thesis
    by (auto simp: saliency_map_def Let_def split: if_splits)
qed

lemma saliency_map_row:
  assumes sal: "saliency_map self x target ss = Inr fi"
    and wf: "wf_classifier (nb_features self) (classifier self)"
    and len: "length ss = length x" and rows: "\<forall>r \<in> set ss. length r = nb_features self"
    and k: "k < length x"
  defines "m \<equiv> masked_grads self (class_gradient (classifier self) x target) ss ! k"
  shows "fst (fi ! k) < nb_features self \<and> snd (fi ! k) < nb_features self \<and>
    fst (fi ! k) \<noteq> snd (fi ! k) \<and>
    (if theta self > 0
     then (\<forall>j < nb_features self. m ! j \<le> m ! snd (fi ! k)) \<and>
          (\<forall>j < nb_features self. j \<noteq> snd (fi ! k) \<longrightarrow> m ! j \<le> m ! fst (fi ! k))
     else (\<forall>j < nb_features self. m ! snd (fi ! k) \<le> m ! j) \<and>
          (\<forall>j < nb_features self. j \<noteq> snd (fi ! k) \<longrightarrow> m ! fst (fi ! k) \<le> m ! j))"
proof -
  let ?g = "class_gradient (classifier self) x target"
  let ?M = "masked_grads self ?g ss"
  let ?n = "nb_features self"
  from wf have g: "length ?g = length ss" "\<forall>r \<in> set ?g. length r = ?n"
    using len by (simp_all add: wf_classifier_def)
  have lM: "length ?M = length ss" by (rule masked_grads_shape(1)[OF g rows])
  have lm: "length m = ?n" unfolding m_def using k len by (simp add: masked_grads_shape(2)[OF g rows])
  from saliency_map_Inr[OF sal] have n2: "2 \<le> ?n" .
  show ?thesis
  proof (cases "theta self > 0")
    case True
    with sal n2 have "fi = map argpartition_last2 ?M"
      by (simp add: saliency_map_def Let_def)
    with k len lM have "argpartition_last2 m = (fst (fi ! k), snd (fi ! k))"
      by (simp add: m_def)
    from argpartition_last2_props[OF _ this] n2 lm True
    show ?thesis by simp
  next
    case False
    with sal n2 have "fi = map (\<lambda>g. argpartition_last2 (map ext_neg g)) ?M"
      by (simp add: saliency_map_def Let_def)
    with k len lM have "argpartition_last2 (map ext_neg m) = (fst (fi ! k), snd (fi ! k))"
      by (simp add: m_def)
    from argpartition_last2_props[OF _ this] n2 lm False
    show ?thesis by simp
  qed
qed

lemma saliency_map_eligible:
  assumes sal: "saliency_map self x target ss = Inr fi"
    and wf: "wf_classifier (nb_features self) (classifier self)"
    and len: "length ss = length x" and rows: "\<forall>r \<in> set ss. length r = nb_features self"
    and k: "k < length x"
  shows "(\<exists>j < nb_features self. ss ! k ! j \<noteq> 0) \<longrightarrow> ss ! k ! snd (fi ! k) \<noteq> 0"
    and "(\<exists>i < nb_features self. \<exists>j < nb_features self. i \<noteq> j \<and> ss ! k ! i \<noteq> 0 \<and> ss ! k ! j \<noteq> 0)
       \<longrightarrow> ss ! k ! fst (fi ! k) \<noteq> 0"
proof -
  let ?g = "class_gradient (classifier self) x target"
  let ?m = "masked_grads self ?g ss ! k"
  let ?n = "nb_features self"
  let ?a = "fst (fi ! k)" and ?b = "snd (fi ! k)"
  from wf have g: "length ?g = length ss" "\<forall>r \<in> set ?g. length r = ?n"
    using len by (simp_all add: wf_classifier_def)
  have nth: "\<And>j. j < ?n \<Longrightarrow> ?m ! j =
     (if ss ! k ! j = 0 then (if theta self > 0 then NegInf else PosInf) else Fin (?g ! k ! j))"
    using masked_grads_nth[OF g rows] k len by simp
  note row = saliency_map_row[OF sal wf len rows k]
  from row have a: "?a < ?n" and b: "?b < ?n" and ab: "?a \<noteq> ?b" by simp_all
  show "(\<exists>j < ?n. ss ! k ! j \<noteq> 0) \<longrightarrow> ss ! k ! ?b \<noteq> 0"
  proof (intro impI notI, elim exE conjE)
    fix j assume j: "j < ?n" "ss ! k ! j \<noteq> 0" and z: "ss ! k ! ?b = 0"
    show False
    proof (cases "theta self > 0")
      case True
      with row j have "?m ! j \<le> ?m ! ?b" by simp
      with nth[OF j(1)] nth[OF b] j(2) z True show False by simp
    next
      case False
      with row j have "?m ! ?b \<le> ?m ! j" by simp
      with nth[OF j(1)] nth[OF b] j(2) z False show False by simp
    qed
  qed
  show "(\<exists>i < ?n. \<exists>j < ?n. i \<noteq> j \<and> ss ! k ! i \<noteq> 0 \<and> ss ! k ! j \<noteq> 0) \<longrightarrow> ss ! k ! ?a \<noteq> 0"
  proof (intro impI notI, elim exE conjE)
    fix i j assume i: "i < ?n" "ss ! k ! i \<noteq> 0" and j: "j < ?n" "ss ! k ! j \<noteq> 0"
      and ij: "i \<noteq> j" and z: "ss ! k ! ?a = 0"
    obtain l where l: "l < ?n" "ss ! k ! l \<noteq> 0" "l \<noteq> ?b"
      using i j ij by (cases "i = ?b") auto
    show False
    proof (cases "theta self > 0")
      case True
      with row l have "?m ! l \<le> ?m ! ?a" by simp
      with nth[OF l(1)] nth[OF a] l(2) z True show False by simp
    next
      case False
      with row l have "?m ! ?a \<le> ?m ! l" by simp
      with nth[OF l(1)] nth[OF a] l(2) z False show False by simp
    qed
  qed
qed

subsection \<open>One iteration\<close>

lemma length_slice_rows:
  "start v \<le> stop v \<Longrightarrow> stop v \<le> length (heap s (base v)) \<Longrightarrow> length (slice_rows s v) = stop v - start v"
  by (simp add: slice_rows_def)

lemma slice_rows_update_adversarial:
  assumes "base batch < nxt s" and "\<forall>i \<in> set active. i < stop batch - start batch"
  shows "slice_rows (update_adversarial self batch active fi s) batch =
         new_batch self (slice_rows s batch) active fi"
proof -
  have "slice_rows (update_adversarial self batch active fi s) batch =
     take (stop batch - start batch) (drop (start batch)
       (put_rows (heap s (base batch)) (map (\<lambda>i. start batch + i) active)
       (map (\<lambda>(row, c). perturb_row self row c) (zip (take_rows (slice_rows s batch) active) fi))))"
    by (simp only: slice_rows_def update_adversarial_base[OF assms(1)])
  also have "\<dots> = put_rows (take (stop batch - start batch) (drop (start batch) (heap s (base batch))))
       active (map (\<lambda>(row, c). perturb_row self row c) (zip (take_rows (slice_rows s batch) active) fi))"
    by (rule slice_put_rows[OF assms(2)])
  finally show ?thesis by (simp add: new_batch_def slice_rows_def)
qed

lemma slice_rows_heap_eq:
  "heap s' (base v) = heap s (base v) \<Longrightarrow> slice_rows s' v = slice_rows s v"
  by (simp add: slice_rows_def)

lemma length_perturb_row [simp]: "length (perturb_row self row c) = length row"
  by (simp add: perturb_row_def Let_def)

lemma length_new_batch [simp]: "length (new_batch self rows active fi) = length rows"
  by (simp add: new_batch_def)

lemma new_batch_nth_notin:
  "i \<notin> set active \<Longrightarrow> new_batch self rows active fi ! i = rows ! i"
  by (simp add: new_batch_def put_rows_notin)

lemma new_batch_nth_active:
  assumes "distinct active" "k < length active" "k < length fi" "active ! k < length rows"
  shows "new_batch self rows active fi ! (active ! k) = perturb_row self (rows ! (active ! k)) (fi ! k)"
  using assms by (simp add: new_batch_def put_rows_nth take_rows_def)

lemma set_put_rows: "set (put_rows a idx vals) \<subseteq> set a \<union> set vals"
proof (induction a idx vals rule: put_rows.induct)
  case (1 a i idx v vals)
  have "set (a[i := v]) \<subseteq> insert v (set a)" by (rule set_update_subset_insert)
  with 1 show ?case by auto
qed simp_all

lemma set_take_rows: "\<forall>i \<in> set idx. i < length a \<Longrightarrow> set (take_rows a idx) \<subseteq> set a"
  by (auto simp: take_rows_def)

lemma set_slice_rows: "set (slice_rows s v) \<subseteq> set (heap s (base v))"
  unfolding slice_rows_def by (meson set_take_subset set_drop_subset subset_trans)

lemma new_batch_rows:
  assumes "\<forall>i \<in> set active. i < length rows" and "r \<in> set (new_batch self rows active fi)"
  shows "r \<in> set rows \<or> (\<exists>r0 \<in> set rows. \<exists>c. r = perturb_row self r0 c)"
proof -
  from assms(2) set_put_rows have
    "r \<in> set rows \<or> r \<in> set (map (\<lambda>(row, c). perturb_row self row c) (zip (take_rows rows active) fi))"
    unfolding new_batch_def by fastforce
  then show ?thesis
  proof
    assume "r \<in> set (map (\<lambda>(row, c). perturb_row self row c) (zip (take_rows rows active) fi))"
    then obtain r0 c where "(r0, c) \<in> set (zip (take_rows rows active) fi)" "r = perturb_row self r0 c"
      by auto
    moreover from this have "r0 \<in> set rows"
      using set_take_rows[OF assms(1)] by (auto dest: set_zip_leftD)
    ultimately show ?thesis by blast
  qed simp
qed

lemma new_batch_row_length:
  assumes "\<forall>i \<in> set active. i < length rows" and "\<forall>r \<in> set rows. length r = n"
  shows "\<forall>r \<in> set (new_batch self rows active fi). length r = n"
  using new_batch_rows[OF assms(1)] assms(2) by fastforce

lemma new_search_space_shape:
  assumes "length ss = length rows" "\<forall>r \<in> set ss. length r = n" "\<forall>r \<in> set rows. length r = n"
  shows "length (new_search_space self ss rows) = length rows"
    and "\<forall>r \<in> set (new_search_space self ss rows). length r = n"
proof -
  show "length (new_search_space self ss rows) = length rows"
    using assms(1) by (simp add: new_search_space_def elementwise_def)
  show "\<forall>r \<in> set (new_search_space self ss rows). length r = n"
    unfolding all_set_conv_all_nth
    using assms by (simp add: new_search_space_def elementwise_def length_put_mask_nth)
qed

lemma new_search_space_nth:
  assumes "length ss = length rows" "\<forall>r \<in> set ss. length r = n" "\<forall>r \<in> set rows. length r = n"
    and "i < length rows" "j < n"
  shows "new_search_space self ss rows ! i ! j = (if rows ! i ! j = clip_bound self then 0 else ss ! i ! j)"
  using assms by (simp add: new_search_space_def elementwise_def put_mask_nth)

lemma set_np_where: "set (np_where c) = {i. i < length c \<and> c ! i}"
  by (auto simp: np_where_def)

lemma distinct_np_where [simp]: "distinct (np_where c)"
  by (simp add: np_where_def)

lemma still_active_bound:
  "i \<in> set (still_active self cp target af ss) \<Longrightarrow> i < length ss"
  by (simp add: still_active_def set_np_where row_sums_def)

lemma distinct_still_active [simp]: "distinct (still_active self cp target af ss)"
  by (simp add: still_active_def)

lemma still_active_iff:
  "i \<in> set (still_active self cp target af ss) \<longleftrightarrow>
     i < length cp \<and> i < length target \<and> i < length af \<and> i < length ss \<and>
     cp ! i \<noteq> target ! i \<and> sum_list (af ! i) / real (nb_features self) \<le> gamma self \<and>
     sum_list (ss ! i) > 0"
  by (auto simp: still_active_def set_np_where row_sums_def)

lemma loop_body_Inl:
  "saliency_map self (take_rows (slice_rows s batch) active) (take_rows target active)
     (take_rows (heap s ss) active) = Inl e \<Longrightarrow>
   loop_body self batch ss af target active s = Inl e"
  by (simp add: loop_body_def)

lemma loop_body_Inr:
  assumes ok: "batch_ok self batch ss af s"
    and act: "\<forall>i \<in> set active. i < stop batch - start batch"
    and sal: "saliency_map self (take_rows (slice_rows s batch) active) (take_rows target active)
       (take_rows (heap s ss) active) = Inr fi"
  defines "B \<equiv> new_batch self (slice_rows s batch) active fi"
  defines "S \<equiv> new_search_space self (heap s ss) B"
  shows "\<exists>s'. loop_body self batch ss af target active s =
            Inr (still_active self (np_argmax (predict (classifier self) B)) target (heap s af) S, s') \<and>
          slice_rows s' batch = B \<and> heap s' ss = S \<and> heap s' af = heap s af \<and>
          batch_ok self batch ss af s' \<and> nxt s \<le> nxt s' \<and>
          (\<forall>p < nxt s. p \<noteq> base batch \<longrightarrow> p \<noteq> ss \<longrightarrow> heap s' p = heap s p) \<and>
          length (heap s' (base batch)) = length (heap s (base batch)) \<and>
          heap s' (base batch) =
            put_rows (heap s (base batch)) (map (\<lambda>i. start batch + i) active)
              (map (\<lambda>(row, c). perturb_row self row c)
                 (zip (take_rows (slice_rows s batch) active) fi))"
proof -
  let ?s1 = "update_used_features af active fi s"
  let ?s2 = "update_adversarial self batch active fi ?s1"
  let ?s3 = "update_search_space self batch ss ?s2"
  from ok have a: "base batch < nxt s" "ss < nxt s" "af < nxt s" "ss \<noteq> base batch"
      "af \<noteq> base batch" "af \<noteq> ss" "start batch \<le> stop batch"
      "stop batch \<le> length (heap s (base batch))"
      "length (heap s ss) = stop batch - start batch"
      "\<forall>r \<in> set (slice_rows s batch). length r = nb_features self"
      "\<forall>r \<in> set (heap s ss). length r = nb_features self"
    by (simp_all add: batch_ok_def)
  have n1: "nxt ?s1 = Suc (Suc (nxt s))" by (rule update_used_features_nxt)
  have h1: "\<And>p. p < nxt s \<Longrightarrow> heap ?s1 p = heap s p" by (rule update_used_features_heap)
  have sl1: "slice_rows ?s1 batch = slice_rows s batch"
    by (rule slice_rows_heap_eq) (simp add: h1 a)
  have b1: "base batch < nxt ?s1" using a n1 by simp
  have sl2: "slice_rows ?s2 batch = B"
    unfolding B_def using slice_rows_update_adversarial[OF b1 act] sl1 by simp
  have n2: "nxt ?s2 = Suc (Suc (Suc (nxt s)))" by (simp add: update_adversarial_nxt n1)
  have h2: "\<And>p. p < nxt s \<Longrightarrow> p \<noteq> base batch \<Longrightarrow> heap ?s2 p = heap s p"
    using update_adversarial_other[of _ ?s1 batch] n1 h1 by simp
  have hb2: "length (heap ?s2 (base batch)) = length (heap s (base batch))"
    by (simp add: update_adversarial_base[OF b1] h1 a)
  have n3: "nxt ?s3 = Suc (Suc (Suc (nxt s)))" by (simp add: update_search_space_nxt n2)
  have h3ss: "heap ?s3 ss = S"
    unfolding S_def by (simp add: update_search_space_heap sl2 h2 a new_search_space_def)
  have h3: "\<And>p. p \<noteq> ss \<Longrightarrow> heap ?s3 p = heap ?s2 p" by (simp add: update_search_space_heap)
  have sl3: "slice_rows ?s3 batch = B"
    using sl2 h3[of "base batch"] a by (simp add: slice_rows_def)
  have af3: "heap ?s3 af = heap s af" using h3[of af] h2[of af] a by simp
  have lB: "length (slice_rows s batch) = stop batch - start batch"
    using a by (simp add: length_slice_rows)
  have act': "\<forall>i \<in> set active. i < length (slice_rows s batch)" using act lB by simp
  have rB: "\<forall>r \<in> set B. length r = nb_features self"
    unfolding B_def by (rule new_batch_row_length[OF act' a(10)])
  have lB': "length B = stop batch - start batch" unfolding B_def using lB by simp
  have lS0: "length (heap s ss) = length B" using a(9) lB' by simp
  have shS: "length S = length B" "\<forall>r \<in> set S. length r = nb_features self"
    unfolding S_def
    by (rule new_search_space_shape(1)[OF lS0 a(11) rB], rule new_search_space_shape(2)[OF lS0 a(11) rB])
  have hb3: "heap ?s3 (base batch) = heap ?s2 (base batch)"
    using a(4) by (simp add: update_search_space_heap)
  have ok3: "batch_ok self batch ss af ?s3"
    unfolding batch_ok_def
  proof (intro conjI)
    show "base batch < nxt ?s3" "ss < nxt ?s3" "af < nxt ?s3"
      using a(1-3) unfolding n3 by simp_all
    show "ss \<noteq> base batch" "af \<noteq> base batch" "af \<noteq> ss" "start batch \<le> stop batch"
      by (rule a)+
    show "stop batch \<le> length (heap ?s3 (base batch))"
      unfolding hb3 hb2 by (rule a)
    show "length (heap ?s3 ss) = stop batch - start batch"
      unfolding h3ss shS(1) by (rule lB')
    show "\<forall>r \<in> set (slice_rows ?s3 batch). length r = nb_features self"
      unfolding sl3 by (rule rB)
    show "\<forall>r \<in> set (heap ?s3 ss). length r = nb_features self"
      unfolding h3ss by (rule shS)
  qed
  have lb: "loop_body self batch ss af target active s =
      Inr (update_active_indices self batch ss af target ?s3, ?s3)"
    by (simp add: loop_body_def sal Let_def)
  have ua: "update_active_indices self batch ss af target ?s3 =
      still_active self (np_argmax (predict (classifier self) B)) target (heap s af) S"
    by (simp add: update_active_indices_def still_active_def Let_def sl3 af3 h3ss)
  have fr: "\<forall>p < nxt s. p \<noteq> base batch \<longrightarrow> p \<noteq> ss \<longrightarrow> heap ?s3 p = heap s p"
    using h3 h2 by simp
  have hb4: "length (heap ?s3 (base batch)) = length (heap s (base batch))"
    unfolding hb3 by (rule hb2)
  have n4: "nxt s \<le> nxt ?s3" unfolding n3 by simp
  have hb5: "heap ?s3 (base batch) =
      put_rows (heap s (base batch)) (map (\<lambda>i. start batch + i) active)
        (map (\<lambda>(row, c). perturb_row self row c)
           (zip (take_rows (slice_rows s batch) active) fi))"
    unfolding hb3 update_adversarial_base[OF b1] sl1 using h1[OF a(1)] by simp
  show ?thesis
    apply (rule exI[of _ ?s3])
    apply (intro conjI)
            apply (simp only: lb ua)
           apply (rule sl3)
          apply (rule h3ss)
         apply (rule af3)
        apply (rule ok3)
       apply (rule n4)
      apply (rule fr)
     apply (rule hb4)
    apply (rule hb5)
    done
qed

subsection \<open>What generate leaves unchanged\<close>

lemma loop_body_frame:
  assumes "loop_body self batch ss af target active s = Inr (active', s')"
  shows "nxt s \<le> nxt s' \<and> (\<forall>p < nxt s. p \<noteq> base batch \<longrightarrow> p \<noteq> ss \<longrightarrow> heap s' p = heap s p)"
proof -
  from assms obtain fi where
    s': "s' = update_search_space self batch ss
           (update_adversarial self batch active fi (update_used_features af active fi s))"
    by (auto simp: loop_body_def Let_def split: sum.splits)
  show ?thesis
    unfolding s'
    by (simp add: update_search_space_nxt update_search_space_heap update_adversarial_nxt
        update_adversarial_other update_used_features_nxt update_used_features_heap)
qed

lemma while_active_frame:
  "while_active fuel self batch ss af target active s = Some (Inr s') \<Longrightarrow>
   nxt s \<le> nxt s' \<and> (\<forall>p < nxt s. p \<noteq> base batch \<longrightarrow> p \<noteq> ss \<longrightarrow> heap s' p = heap s p)"
proof (induction fuel arbitrary: active s)
  case 0
  then show ?case by (simp split: if_splits)
next
  case (Suc fuel)
  show ?case
  proof (cases "length active = 0")
    case True
    with Suc.prems show ?thesis by simp
  next
    case False
    with Suc.prems obtain a1 s1 where
      b: "loop_body self batch ss af target active s = Inr (a1, s1)" and
      w: "while_active fuel self batch ss af target a1 s1 = Some (Inr s')"
      by (auto split: sum.splits)
    from loop_body_frame[OF b] Suc.IH[OF w] show ?thesis
      by (metis (no_types, lifting) le_trans less_le_trans)
  qed
qed

lemma init_search_space_props:
  assumes "init_search_space self batch s = (ss, s0)"
  shows "ss = nxt s" "nxt s0 = Suc (nxt s)" "\<forall>p. p \<noteq> nxt s \<longrightarrow> heap s0 p = heap s p"
    "base batch < nxt s \<Longrightarrow> heap s0 ss =
       put_mask (zeros_like (slice_rows s batch))
         (elementwise (\<lambda>v. if theta self > 0 then v < snd (clip_values (classifier self))
                            else v > fst (clip_values (classifier self))) (slice_rows s batch)) 1"
  using assms
  by (auto simp: init_search_space_def Let_def alloc_def case_prod_beta slice_rows_def split: if_splits)

lemma process_batch_frame:
  assumes "process_batch fuel self x_adv preds targets bid s = Some (Inr s')"
  shows "nxt s \<le> nxt s' \<and> (\<forall>p < nxt s. p \<noteq> x_adv \<longrightarrow> heap s' p = heap s p)"
proof -
  let ?batch = "basic_slice s x_adv (bid * nat (batch_size self)) ((bid + 1) * nat (batch_size self))"
  obtain ss s0 where i: "init_search_space self ?batch s = (ss, s0)" by fastforce
  note ip = init_search_space_props[OF i]
  let ?s1 = "snd (alloc (zeros_like (slice_rows s0 ?batch)) s0)"
  let ?af = "nxt s0"
  from assms i obtain target active s2 where
    w: "while_active fuel self ?batch ss ?af target active ?s1 = Some (Inr s2)" and
    s': "s' = update_array x_adv (\<lambda>a. put_rows a [start ?batch..<stop ?batch] (slice_rows s2 ?batch)) s2"
    by (auto simp: process_batch_def Let_def alloc_def split: option.splits sum.splits)
  have b: "base ?batch = x_adv" by (simp add: basic_slice_def)
  have n1: "nxt ?s1 = Suc (Suc (nxt s))" using ip(2) by (simp add: alloc_def)
  have h1: "\<forall>p < nxt s. heap ?s1 p = heap s p" using ip by (simp add: alloc_def)
  from while_active_frame[OF w] b n1 ip(1)
  have "nxt ?s1 \<le> nxt s2" "\<forall>p < nxt s. p \<noteq> x_adv \<longrightarrow> heap s2 p = heap ?s1 p"
    by simp_all
  with n1 h1 show ?thesis unfolding s' by simp
qed

lemma for_batches_frame:
  "for_batches fuel self x_adv preds targets ids s = Some (Inr s') \<Longrightarrow>
   nxt s \<le> nxt s' \<and> (\<forall>p < nxt s. p \<noteq> x_adv \<longrightarrow> heap s' p = heap s p)"
proof (induction ids arbitrary: s)
  case Nil
  then show ?case by simp
next
  case (Cons bid ids)
  from Cons.prems obtain s1 where
    p: "process_batch fuel self x_adv preds targets bid s = Some (Inr s1)" and
    f: "for_batches fuel self x_adv preds targets ids s1 = Some (Inr s')"
    by (auto split: option.splits sum.splits)
  from process_batch_frame[OF p] Cons.IH[OF f] show ?case
    by (metis (no_types, lifting) le_trans less_le_trans)
qed

lemma generate_Inr:
  assumes "generate fuel rnd self x kw s = Some (Inr (r, self', s'))"
  obtains self0 targets where
    "set_params self kw = Inr self0"
    "self' = self0\<lparr>nb_features := np_product (tl (shape x))\<rparr>"
    "nb_features self' \<noteq> 0"
    "resolve_targets rnd self' kw (np_argmax (predict (classifier self') (heap s (buf x)))) = Inr targets"
    "for_batches fuel self' (nxt s) (np_argmax (predict (classifier self') (heap s (buf x)))) targets
       [0..<nat \<lceil>real (length (heap s (buf x))) / real_of_int (batch_size self')\<rceil>]
       (snd (alloc (heap s (buf x)) s)) = Some (Inr s')"
    "r = \<lparr>buf = nxt s, shape = shape x\<rparr>"
proof -
  from assms obtain self0 where sp: "set_params self kw = Inr self0"
    by (auto simp: generate_def split: sum.splits)
  let ?self = "self0\<lparr>nb_features := np_product (tl (shape x))\<rparr>"
  from assms sp have nz: "nb_features ?self \<noteq> 0"
    by (auto simp: generate_def Let_def split: if_splits)
  let ?preds = "np_argmax (predict (classifier ?self) (heap s (buf x)))"
  from assms sp nz obtain targets where rt: "resolve_targets rnd ?self kw ?preds = Inr targets"
    by (auto simp: generate_def Let_def alloc_def split: sum.splits if_splits)
  from assms sp nz rt have
    "for_batches fuel ?self (nxt s) ?preds targets
       [0..<nat \<lceil>real (length (heap s (buf x))) / real_of_int (batch_size ?self)\<rceil>]
       (snd (alloc (heap s (buf x)) s)) = Some (Inr s') \<and>
     r = \<lparr>buf = nxt s, shape = shape x\<rparr> \<and> self' = ?self"
    by (auto simp: generate_def Let_def alloc_def split: sum.splits if_splits option.splits)
  with sp nz rt that show thesis by blast
qed

lemma generate_frame:
  assumes "generate fuel rnd self x kw s = Some (Inr (r, self', s'))"
  shows "buf r = nxt s \<and> shape r = shape x \<and> nxt s < nxt s' \<and> (\<forall>p < nxt s. heap s' p = heap s p)"
proof -
  from assms obtain targets where
    f: "for_batches fuel self' (nxt s) (np_argmax (predict (classifier self') (heap s (buf x)))) targets
       [0..<nat \<lceil>real (length (heap s (buf x))) / real_of_int (batch_size self')\<rceil>]
       (snd (alloc (heap s (buf x)) s)) = Some (Inr s')"
    and r: "r = \<lparr>buf = nxt s, shape = shape x\<rparr>"
    by (rule generate_Inr) blast
  from for_batches_frame[OF f] r show ?thesis by (simp add: alloc_def)
qed

subsection \<open>The loop of a batch and the loop over the batches\<close>

lemma put_rows_same:
  "k + length vals \<le> length a \<Longrightarrow> vals = take (length vals) (drop k a) \<Longrightarrow>
   put_rows a [k..<k + length vals] vals = a"
proof (induction vals arbitrary: k)
  case Nil
  then show ?case by simp
next
  case (Cons v vals)
  from Cons.prems have st: "k < length a" by simp
  from Cons.prems(2) st have v: "v = a ! k" and vs: "vals = take (length vals) (drop (Suc k) a)"
    by (simp_all add: Cons_nth_drop_Suc[symmetric])
  have "[k..<k + length (v # vals)] = k # [Suc k..<Suc k + length vals]"
    by (simp add: upt_rec)
  with Cons.IH[of "Suc k"] Cons.prems(1) v vs show ?case by simp
qed

lemma write_back_heap:
  assumes "start batch \<le> stop batch" "stop batch \<le> length (heap s (base batch))"
  shows "heap (write_back batch s) = heap s"
proof -
  let ?vals = "slice_rows s batch"
  have l: "length ?vals = stop batch - start batch" using assms by (simp add: slice_rows_def)
  have "put_rows (heap s (base batch)) [start batch..<start batch + length ?vals] ?vals = heap s (base batch)"
    by (rule put_rows_same) (use assms l in \<open>simp_all add: slice_rows_def\<close>)
  with l assms show ?thesis by (auto simp: write_back_def update_array_def)
qed

lemma process_batch_eq:
  fixes self :: attack and bid :: nat and preds targets :: "nat list"
  assumes "x_adv < nxt s"
  defines "batch \<equiv> batch_of self s x_adv bid"
  defines "target \<equiv> slice_list targets (bid * nat (batch_size self)) ((bid + 1) * nat (batch_size self))"
  defines "active \<equiv> initial_active
     (slice_list preds (bid * nat (batch_size self)) ((bid + 1) * nat (batch_size self))) target"
  shows "process_batch fuel self x_adv preds targets bid s =
     (case while_active fuel self batch (nxt s) (Suc (nxt s)) target active (batch_start self batch s) of
        None \<Rightarrow> None
      | Some (Inl e) \<Rightarrow> Some (Inl e)
      | Some (Inr s1) \<Rightarrow> Some (Inr (write_back batch s1)))"
proof -
  have b: "base batch = x_adv" by (simp add: batch_def batch_of_def basic_slice_def)
  have sl: "\<And>a. slice_rows \<lparr>heap = (heap s)(nxt s := a), nxt = Suc (nxt s)\<rparr> batch = slice_rows s batch"
    using assms(1) b by (simp add: slice_rows_def)
  have i: "init_search_space self batch s =
     (nxt s, \<lparr>heap = (heap s)(nxt s := initial_search_space self (slice_rows s batch)), nxt = Suc (nxt s)\<rparr>)"
    by (simp add: init_search_space_def Let_def alloc_def case_prod_beta update_array_def sl
        initial_search_space_def)
  have sl2: "slice_rows \<lparr>heap = (heap s)(nxt s := initial_search_space self (slice_rows s batch)),
       nxt = Suc (nxt s)\<rparr> batch = slice_rows s batch"
    by (rule sl)
  show ?thesis
    unfolding process_batch_def Let_def batch_def[symmetric] batch_of_def[symmetric] i
      target_def[symmetric] prod.case initial_active_def[symmetric] active_def[symmetric]
    by (simp add: alloc_def sl2 batch_start_def write_back_def b split: option.splits sum.splits)
qed

lemma batch_ok_start:
  fixes self :: attack and bid :: nat
  assumes "x_adv < nxt s" "\<forall>r \<in> set (heap s x_adv). length r = nb_features self"
  defines "batch \<equiv> batch_of self s x_adv bid"
  shows "batch_ok self batch (nxt s) (Suc (nxt s)) (batch_start self batch s)"
    and "slice_rows (batch_start self batch s) batch = slice_rows s batch"
proof -
  have b: "base batch = x_adv" "start batch \<le> stop batch" "stop batch \<le> length (heap s x_adv)"
    by (simp_all add: batch_def batch_of_def basic_slice_def min.coboundedI2)
  show sl: "slice_rows (batch_start self batch s) batch = slice_rows s batch"
    using assms(1) b by (simp add: slice_rows_def batch_start_def)
  have rows: "\<forall>r \<in> set (slice_rows s batch). length r = nb_features self"
    using assms(2) set_slice_rows[of s batch] b(1) by auto
  have l: "length (slice_rows s batch) = stop batch - start batch"
    using b by (simp add: slice_rows_def)
  have il: "length (initial_search_space self (slice_rows s batch)) = stop batch - start batch"
    using l by (simp add: initial_search_space_def zeros_like_def elementwise_def)
  have ir: "\<forall>r \<in> set (initial_search_space self (slice_rows s batch)). length r = nb_features self"
    unfolding all_set_conv_all_nth using rows
    by (simp add: initial_search_space_def zeros_like_def elementwise_def length_put_mask_nth)
  show "batch_ok self batch (nxt s) (Suc (nxt s)) (batch_start self batch s)"
    unfolding batch_ok_def sl
    using assms(1) b rows il ir by (simp add: batch_start_def)
qed

lemma loop_body_InrE:
  assumes lb: "loop_body self batch ss af target active s = Inr (active', s')"
    and ok: "batch_ok self batch ss af s"
    and act: "\<forall>i \<in> set active. i < stop batch - start batch"
  obtains fi where
    "saliency_map self (take_rows (slice_rows s batch) active) (take_rows target active)
       (take_rows (heap s ss) active) = Inr fi"
    "active' = still_active self (np_argmax (predict (classifier self) (slice_rows s' batch)))
       target (heap s af) (heap s' ss)"
    "slice_rows s' batch = new_batch self (slice_rows s batch) active fi"
    "heap s' ss = new_search_space self (heap s ss) (slice_rows s' batch)"
    "heap s' af = heap s af"
    "batch_ok self batch ss af s'"
    "nxt s \<le> nxt s'"
    "\<forall>p < nxt s. p \<noteq> base batch \<longrightarrow> p \<noteq> ss \<longrightarrow> heap s' p = heap s p"
    "length (heap s' (base batch)) = length (heap s (base batch))"
    "heap s' (base batch) =
       put_rows (heap s (base batch)) (map (\<lambda>i. start batch + i) active)
         (map (\<lambda>(row, c). perturb_row self row c) (zip (take_rows (slice_rows s batch) active) fi))"
proof -
  from lb obtain fi where sal:
    "saliency_map self (take_rows (slice_rows s batch) active) (take_rows target active)
       (take_rows (heap s ss) active) = Inr fi"
    by (auto simp: loop_body_def split: sum.splits)
  from loop_body_Inr[OF ok act sal] lb sal that show thesis
    by (metis Inr_inject prod.inject)
qed

lemma while_active_rule:
  assumes w: "while_active fuel self batch ss af target active s = Some (Inr s')"
    and ok: "batch_ok self batch ss af s"
    and act: "\<forall>i \<in> set active. i < stop batch - start batch"
    and dist: "distinct active"
    and I: "I s"
    and step: "\<And>active s active' s1.
        batch_ok self batch ss af s \<Longrightarrow> \<forall>i \<in> set active. i < stop batch - start batch \<Longrightarrow>
        distinct active \<Longrightarrow> I s \<Longrightarrow>
        loop_body self batch ss af target active s = Inr (active', s1) \<Longrightarrow> I s1"
  shows "batch_ok self batch ss af s' \<and> I s'"
  using w ok act dist I
proof (induction fuel arbitrary: active s)
  case 0
  then show ?case by (simp split: if_splits)
next
  case (Suc fuel)
  show ?case
  proof (cases "length active = 0")
    case True
    with Suc.prems show ?thesis by simp
  next
    case False
    with Suc.prems(1) obtain a1 s1 where
      b: "loop_body self batch ss af target active s = Inr (a1, s1)" and
      w1: "while_active fuel self batch ss af target a1 s1 = Some (Inr s')"
      by (auto split: sum.splits)
    from step[OF Suc.prems(2,3,4,5) b] have I1: "I s1" .
    from b Suc.prems(2,3) obtain fi where
      a1: "a1 = still_active self (np_argmax (predict (classifier self) (slice_rows s1 batch)))
             target (heap s af) (heap s1 ss)"
      and ok1: "batch_ok self batch ss af s1"
      by (rule loop_body_InrE)
    from ok1 have "length (heap s1 ss) = stop batch - start batch" by (simp add: batch_ok_def)
    with a1 have act1: "\<forall>i \<in> set a1. i < stop batch - start batch"
      using still_active_bound by fastforce
    from a1 have d1: "distinct a1" by simp
    from Suc.IH[OF w1 ok1 act1 d1 I1] show ?thesis .
  qed
qed

lemma perturbed_within:
  assumes "fst (clip_values (classifier self)) \<le> v" "v \<le> snd (clip_values (classifier self))"
  shows "fst (clip_values (classifier self)) \<le> perturbed self v \<and>
         perturbed self v \<le> snd (clip_values (classifier self))"
  using assms by (auto simp: perturbed_def prepare_update_def Let_def case_prod_beta)

lemma perturbed_eq:
  "perturbed self v = (if theta self > 0 then min (snd (clip_values (classifier self))) (v + theta self)
                       else max (fst (clip_values (classifier self))) (v + theta self))"
  by (simp add: perturbed_def prepare_update_def Let_def case_prod_beta)

lemma clip_bound_eq:
  "clip_bound self = (if theta self > 0 then snd (clip_values (classifier self))
                      else fst (clip_values (classifier self)))"
  by (simp add: clip_bound_def prepare_update_def Let_def case_prod_beta)

lemma set_update_within:
  assumes "\<forall>v \<in> set r. P v" and "i < length r \<Longrightarrow> P x"
  shows "\<forall>v \<in> set (r[i := x]). P v"
proof (cases "i < length r")
  case True
  with assms set_update_subset_insert[of r i x] show ?thesis by auto
next
  case False
  then have "r[i := x] = r" by (intro list_update_beyond) simp
  with assms(1) show ?thesis by simp
qed

lemma perturb_row_within:
  assumes "\<forall>v \<in> set r. fst (clip_values (classifier self)) \<le> v \<and> v \<le> snd (clip_values (classifier self))"
  shows "\<forall>v \<in> set (perturb_row self r c).
           fst (clip_values (classifier self)) \<le> v \<and> v \<le> snd (clip_values (classifier self))"
proof -
  let ?P = "\<lambda>v. fst (clip_values (classifier self)) \<le> v \<and> v \<le> snd (clip_values (classifier self))"
  let ?r1 = "r[fst c := perturbed self (r ! fst c)]"
  have step: "\<And>r i. \<forall>v \<in> set r. ?P v \<Longrightarrow> \<forall>v \<in> set (r[i := perturbed self (r ! i)]). ?P v"
  proof -
    fix r :: "real list" and i
    assume r: "\<forall>v \<in> set r. ?P v"
    show "\<forall>v \<in> set (r[i := perturbed self (r ! i)]). ?P v"
    proof (rule set_update_within[OF r])
      assume "i < length r"
      with r have "?P (r ! i)" by simp
      then show "?P (perturbed self (r ! i))" using perturbed_within by blast
    qed
  qed
  have "\<forall>v \<in> set (?r1[snd c := perturbed self (?r1 ! snd c)]). ?P v"
    by (intro step assms)
  then show ?thesis by (simp add: perturb_row_def Let_def)
qed

lemma within_clip_put_rows:
  assumes "within_clip self a" "within_clip self vals"
  shows "within_clip self (put_rows a idx vals)"
  using assms set_put_rows[of a idx vals] unfolding within_clip_def by blast

lemma within_clip_perturbed_rows:
  assumes "within_clip self a" and "set rows \<subseteq> set a"
  shows "within_clip self (map (\<lambda>(row, c). perturb_row self row c) (zip rows fi))"
  unfolding within_clip_def
proof (intro ballI)
  fix r v assume "r \<in> set (map (\<lambda>(row, c). perturb_row self row c) (zip rows fi))" "v \<in> set r"
  then obtain r0 c where r0: "(r0, c) \<in> set (zip rows fi)" and r: "r = perturb_row self r0 c"
    by auto
  from r0 assms(2) have "r0 \<in> set a" by (auto dest: set_zip_leftD)
  with assms(1) have "\<forall>v \<in> set r0. fst (clip_values (classifier self)) \<le> v \<and>
      v \<le> snd (clip_values (classifier self))"
    by (simp add: within_clip_def)
  from perturb_row_within[OF this, of c] r \<open>v \<in> set r\<close>
  show "fst (clip_values (classifier self)) \<le> v \<and> v \<le> snd (clip_values (classifier self))"
    by simp
qed

lemma loop_body_within:
  assumes ok: "batch_ok self batch ss af s"
    and act: "\<forall>i \<in> set active. i < stop batch - start batch"
    and I: "within_clip self (heap s (base batch))"
    and lb: "loop_body self batch ss af target active s = Inr (active', s1)"
  shows "within_clip self (heap s1 (base batch))"
proof -
  from lb ok act obtain fi where h: "heap s1 (base batch) =
       put_rows (heap s (base batch)) (map (\<lambda>i. start batch + i) active)
         (map (\<lambda>(row, c). perturb_row self row c) (zip (take_rows (slice_rows s batch) active) fi))"
    by (rule loop_body_InrE)
  from ok have "length (slice_rows s batch) = stop batch - start batch"
    by (simp add: batch_ok_def length_slice_rows)
  with act have "set (take_rows (slice_rows s batch) active) \<subseteq> set (slice_rows s batch)"
    by (intro set_take_rows) simp
  with set_slice_rows[of s batch]
  have "set (take_rows (slice_rows s batch) active) \<subseteq> set (heap s (base batch))" by blast
  from within_clip_put_rows[OF I within_clip_perturbed_rows[OF I this]] h show ?thesis by simp
qed


lemma write_back_id:
  assumes "batch_ok self batch ss af s"
  shows "write_back batch s = s"
proof -
  from assms have "heap (write_back batch s) = heap s"
    by (intro write_back_heap) (simp_all add: batch_ok_def)
  moreover have "nxt (write_back batch s) = nxt s" by (simp add: write_back_def)
  ultimately show ?thesis by simp
qed

lemma loop_body_array_ok:
  assumes ok: "batch_ok self batch ss af s"
    and act: "\<forall>i \<in> set active. i < stop batch - start batch"
    and I: "array_ok self n (heap s (base batch))"
    and lb: "loop_body self batch ss af target active s = Inr (active', s1)"
  shows "array_ok self n (heap s1 (base batch))"
proof -
  from lb ok act obtain fi where h: "heap s1 (base batch) =
       put_rows (heap s (base batch)) (map (\<lambda>i. start batch + i) active)
         (map (\<lambda>(row, c). perturb_row self row c) (zip (take_rows (slice_rows s batch) active) fi))"
    by (rule loop_body_InrE)
  let ?vals = "map (\<lambda>(row, c). perturb_row self row c) (zip (take_rows (slice_rows s batch) active) fi)"
  from ok have "length (slice_rows s batch) = stop batch - start batch"
    by (simp add: batch_ok_def length_slice_rows)
  with act have "set (take_rows (slice_rows s batch) active) \<subseteq> set (slice_rows s batch)"
    by (intro set_take_rows) simp
  with ok have "\<forall>r \<in> set (take_rows (slice_rows s batch) active). length r = nb_features self"
    by (auto simp: batch_ok_def)
  then have "\<forall>r \<in> set ?vals. length r = nb_features self"
    by (auto dest: set_zip_leftD)
  with I set_put_rows[of "heap s (base batch)" "map (\<lambda>i. start batch + i) active" ?vals]
  show ?thesis unfolding h array_ok_def by auto
qed

lemma initial_active_bound:
  assumes "length preds \<le> n"
  shows "\<forall>i \<in> set (initial_active (slice_list preds b1 b2) target). i < min b2 n - min b1 n"
proof
  fix i assume "i \<in> set (initial_active (slice_list preds b1 b2) target)"
  then have "i < length (slice_list preds b1 b2)"
    by (simp add: initial_active_def set_np_where)
  then have "i < b2 - b1" "i < length preds - b1" by (simp_all add: slice_list_def)
  with assms show "i < min b2 n - min b1 n" by arith
qed

lemma distinct_initial_active [simp]: "distinct (initial_active cp target)"
  by (simp add: initial_active_def)

lemma process_batch_rule:
  assumes p: "process_batch fuel self x_adv preds targets bid s = Some (Inr s')"
    and x: "x_adv < nxt s" and a: "array_ok self n (heap s x_adv)" and lp: "length preds \<le> n"
    and I0: "I (batch_start self (batch_of self s x_adv bid) s)"
    and step: "\<And>target active t active' t1.
        batch_ok self (batch_of self s x_adv bid) (nxt s) (Suc (nxt s)) t \<Longrightarrow>
        \<forall>i \<in> set active. i < stop (batch_of self s x_adv bid) - start (batch_of self s x_adv bid) \<Longrightarrow>
        distinct active \<Longrightarrow> I t \<Longrightarrow>
        loop_body self (batch_of self s x_adv bid) (nxt s) (Suc (nxt s)) target active t = Inr (active', t1)
        \<Longrightarrow> I t1"
  shows "batch_ok self (batch_of self s x_adv bid) (nxt s) (Suc (nxt s)) s' \<and> I s'"
proof -
  let ?batch = "batch_of self s x_adv bid"
  let ?s0 = "batch_start self ?batch s"
  let ?target = "slice_list targets (bid * nat (batch_size self)) ((bid + 1) * nat (batch_size self))"
  let ?active = "initial_active
     (slice_list preds (bid * nat (batch_size self)) ((bid + 1) * nat (batch_size self))) ?target"
  from a have rows: "\<forall>r \<in> set (heap s x_adv). length r = nb_features self" and n: "length (heap s x_adv) = n"
    by (simp_all add: array_ok_def)
  have b: "base ?batch = x_adv" "start ?batch = min (bid * nat (batch_size self)) n"
      "stop ?batch = min ((bid + 1) * nat (batch_size self)) n"
    using n by (simp_all add: batch_of_def basic_slice_def)
  from p process_batch_eq[OF x, of fuel self preds targets bid] obtain s1 where
    w1: "while_active fuel self ?batch (nxt s) (Suc (nxt s)) ?target ?active ?s0 = Some (Inr s1)"
    and s': "s' = write_back ?batch s1"
    by (auto split: option.splits sum.splits)
  note ok0 = batch_ok_start(1)[OF x rows, of bid]
  have act: "\<forall>i \<in> set ?active. i < stop ?batch - start ?batch"
    using initial_active_bound[OF lp] by (simp only: b)
  have d: "distinct ?active" by simp
  have r: "batch_ok self ?batch (nxt s) (Suc (nxt s)) s1 \<and> I s1"
    using w1 ok0 act d I0 by (rule while_active_rule) (rule step)
  then have ok1: "batch_ok self ?batch (nxt s) (Suc (nxt s)) s1" by simp
  from write_back_id[OF ok1] s' have "s' = s1" by simp
  with r show ?thesis by simp
qed

lemma process_batch_inv:
  assumes p: "process_batch fuel self x_adv preds targets bid s = Some (Inr s')"
    and x: "x_adv < nxt s" and a: "array_ok self n (heap s x_adv)" and lp: "length preds \<le> n"
    and w: "within_clip self (heap s x_adv)"
  shows "x_adv < nxt s' \<and> array_ok self n (heap s' x_adv) \<and> within_clip self (heap s' x_adv)"
proof -
  let ?batch = "batch_of self s x_adv bid"
  let ?I = "\<lambda>t. array_ok self n (heap t x_adv) \<and> within_clip self (heap t x_adv)"
  have b: "base ?batch = x_adv" by (simp add: batch_of_def basic_slice_def)
  have h0: "heap (batch_start self ?batch s) x_adv = heap s x_adv"
    using x by (simp add: batch_start_def)
  have I0: "?I (batch_start self ?batch s)" unfolding h0 using a w by simp
  have "batch_ok self ?batch (nxt s) (Suc (nxt s)) s' \<and> ?I s'"
    using p x a lp I0
  proof (rule process_batch_rule)
    fix target active t active' t1
    assume "batch_ok self ?batch (nxt s) (Suc (nxt s)) t"
      "\<forall>i \<in> set active. i < stop ?batch - start ?batch"
      "?I t"
      "loop_body self ?batch (nxt s) (Suc (nxt s)) target active t = Inr (active', t1)"
    then show "?I t1"
      using loop_body_array_ok[of self ?batch] loop_body_within[of self ?batch] unfolding b by blast
  qed
  then show ?thesis using b by (simp add: batch_ok_def)
qed

lemma for_batches_inv:
  assumes "for_batches fuel self x_adv preds targets ids s = Some (Inr s')"
    and "x_adv < nxt s" and "array_ok self n (heap s x_adv)" and "length preds \<le> n"
    and "within_clip self (heap s x_adv)"
  shows "x_adv < nxt s' \<and> array_ok self n (heap s' x_adv) \<and> within_clip self (heap s' x_adv)"
  using assms
proof (induction ids arbitrary: s)
  case Nil
  then show ?case by simp
next
  case (Cons bid ids)
  from Cons.prems(1) obtain s1 where
    p: "process_batch fuel self x_adv preds targets bid s = Some (Inr s1)" and
    f: "for_batches fuel self x_adv preds targets ids s1 = Some (Inr s')"
    by (auto split: option.splits sum.splits)
  from process_batch_inv[OF p Cons.prems(2,3,4,5)] Cons.IH[OF f] Cons.prems(4)
  show ?case by blast
qed

lemma set_params_Inr:
  assumes "set_params self kw = Inr self0"
  shows "self0 = Attack_set_params self kw" "classifier self0 = classifier self"
    "0 < gamma self0" "gamma self0 \<le> 1" "0 < batch_size self0"
  using assms by (auto simp: set_params_def Let_def Attack_set_params_def split: if_splits)

lemma length_np_argmax [simp]: "length (np_argmax a) = length a"
  by (simp add: np_argmax_def)

lemma generate_within:
  assumes gen: "generate fuel rnd self x kw s = Some (Inr (r, self', s'))"
    and wfx: "wf_input s x"
    and wfc: "wf_classifier (np_product (tl (shape x))) (classifier self)"
    and w: "within_clip self (heap s (buf x))"
  shows "within_clip self' (heap s' (buf r))"
proof -
  let ?X = "heap s (buf x)"
  from gen obtain self0 targets where
    sp: "set_params self kw = Inr self0" and
    self': "self' = self0\<lparr>nb_features := np_product (tl (shape x))\<rparr>" and
    f: "for_batches fuel self' (nxt s) (np_argmax (predict (classifier self') ?X)) targets
       [0..<nat \<lceil>real (length ?X) / real_of_int (batch_size self')\<rceil>]
       (snd (alloc ?X s)) = Some (Inr s')" and
    r: "r = \<lparr>buf = nxt s, shape = shape x\<rparr>"
    by (rule generate_Inr)
  from set_params_Inr(2)[OF sp] self' have c: "classifier self' = classifier self"
    and nf: "nb_features self' = np_product (tl (shape x))" by simp_all
  let ?s0 = "snd (alloc ?X s)"
  have h0: "heap ?s0 (nxt s) = ?X" "nxt s < nxt ?s0" by (simp_all add: alloc_def)
  from wfx have a0: "array_ok self' (length ?X) (heap ?s0 (nxt s))"
    unfolding h0 by (simp add: array_ok_def wf_input_def nf)
  from wfc have lp: "length (np_argmax (predict (classifier self') ?X)) \<le> length ?X"
    by (simp add: c wf_classifier_def)
  from w have w0: "within_clip self' (heap ?s0 (nxt s))"
    unfolding h0 by (simp add: within_clip_def c)
  from for_batches_inv[OF f h0(2) a0 lp w0] r show ?thesis by simp
qed

lemma perturb_row_nth:
  assumes "fst c \<noteq> snd c" "fst c < length r" "snd c < length r" "j < length r"
  shows "perturb_row self r c ! j = (if j = fst c \<or> j = snd c then perturbed self (r ! j) else r ! j)"
  using assms by (auto simp: perturb_row_def Let_def nth_list_update)

lemma take_rows_nth [simp]: "k < length idx \<Longrightarrow> take_rows a idx ! k = a ! (idx ! k)"
  by (simp add: take_rows_def)

lemma length_take_rows [simp]: "length (take_rows a idx) = length idx"
  by (simp add: take_rows_def)

lemma set_take_rows_length:
  assumes "\<forall>i \<in> set idx. i < length a" "\<forall>r \<in> set a. length r = n"
  shows "\<forall>r \<in> set (take_rows a idx). length r = n"
  using assms set_take_rows[OF assms(1)] by blast

lemma loop_body_effect:
  assumes lb: "loop_body self batch ss af target active s = Inr (active', s')"
    and ok: "batch_ok self batch ss af s"
    and act: "\<forall>i \<in> set active. i < stop batch - start batch"
    and dist: "distinct active"
    and wf: "wf_classifier (nb_features self) (classifier self)"
  obtains fi where
    "saliency_map self (take_rows (slice_rows s batch) active) (take_rows target active)
       (take_rows (heap s ss) active) = Inr fi"
    "length fi = length active"
    "\<forall>k < length active. fst (fi ! k) \<noteq> snd (fi ! k) \<and> fst (fi ! k) < nb_features self \<and>
        snd (fi ! k) < nb_features self"
    "\<forall>k < length active. (\<exists>j < nb_features self. heap s ss ! (active ! k) ! j \<noteq> 0) \<longrightarrow>
        heap s ss ! (active ! k) ! snd (fi ! k) \<noteq> 0"
    "\<forall>i < stop batch - start batch. i \<notin> set active \<longrightarrow> slice_rows s' batch ! i = slice_rows s batch ! i"
    "\<forall>k < length active. \<forall>j < nb_features self. slice_rows s' batch ! (active ! k) ! j =
        (if j = fst (fi ! k) \<or> j = snd (fi ! k) then perturbed self (slice_rows s batch ! (active ! k) ! j)
         else slice_rows s batch ! (active ! k) ! j)"
    "\<forall>i < stop batch - start batch. \<forall>j < nb_features self. heap s' ss ! i ! j =
        (if slice_rows s' batch ! i ! j = clip_bound self then 0 else heap s ss ! i ! j)"
proof -
  let ?B = "slice_rows s batch" and ?S = "heap s ss"
  let ?n = "stop batch - start batch" and ?F = "nb_features self"
  from ok have lB: "length ?B = ?n" and lS: "length ?S = ?n"
    and rB: "\<forall>r \<in> set ?B. length r = ?F" and rS: "\<forall>r \<in> set ?S. length r = ?F"
    by (simp_all add: batch_ok_def length_slice_rows)
  from lb ok act obtain fi where
    sal: "saliency_map self (take_rows ?B active) (take_rows target active) (take_rows ?S active) = Inr fi"
    and B': "slice_rows s' batch = new_batch self ?B active fi"
    and S': "heap s' ss = new_search_space self ?S (slice_rows s' batch)"
    and ok': "batch_ok self batch ss af s'"
    by (rule loop_body_InrE)
  have actB: "\<forall>i \<in> set active. i < length ?B" and actS: "\<forall>i \<in> set active. i < length ?S"
    using act lB lS by simp_all
  have l: "length (take_rows ?S active) = length (take_rows ?B active)" by simp
  have r: "\<forall>r \<in> set (take_rows ?S active). length r = ?F"
    by (rule set_take_rows_length[OF actS rS])
  have lfi: "length fi = length active"
    using saliency_map_length[OF sal wf l r] by simp
  have row: "\<And>k. k < length active \<Longrightarrow> fst (fi ! k) \<noteq> snd (fi ! k) \<and> fst (fi ! k) < ?F \<and> snd (fi ! k) < ?F"
    using saliency_map_row[OF sal wf l r] by simp
  have el: "\<And>k. k < length active \<Longrightarrow> (\<exists>j < ?F. ?S ! (active ! k) ! j \<noteq> 0) \<longrightarrow>
        ?S ! (active ! k) ! snd (fi ! k) \<noteq> 0"
    using saliency_map_eligible(1)[OF sal wf l r] by simp
  have un: "\<forall>i < ?n. i \<notin> set active \<longrightarrow> slice_rows s' batch ! i = ?B ! i"
    unfolding B' by (simp add: new_batch_nth_notin)
  have ch: "\<forall>k < length active. \<forall>j < ?F. slice_rows s' batch ! (active ! k) ! j =
        (if j = fst (fi ! k) \<or> j = snd (fi ! k) then perturbed self (?B ! (active ! k) ! j)
         else ?B ! (active ! k) ! j)"
  proof (intro allI impI)
    fix k j assume k: "k < length active" and j: "j < ?F"
    from k actB have ak: "active ! k < length ?B" by simp
    with rB have lr: "length (?B ! (active ! k)) = ?F" by simp
    have "slice_rows s' batch ! (active ! k) = perturb_row self (?B ! (active ! k)) (fi ! k)"
      unfolding B' using dist k lfi ak by (simp add: new_batch_nth_active)
    with row[OF k] lr j show "slice_rows s' batch ! (active ! k) ! j =
        (if j = fst (fi ! k) \<or> j = snd (fi ! k) then perturbed self (?B ! (active ! k) ! j)
         else ?B ! (active ! k) ! j)"
      by (simp add: perturb_row_nth)
  qed
  from ok' have lB': "length (slice_rows s' batch) = ?n"
    and rB': "\<forall>r \<in> set (slice_rows s' batch). length r = ?F"
    by (simp_all add: batch_ok_def length_slice_rows)
  have ssn: "\<forall>i < ?n. \<forall>j < ?F. heap s' ss ! i ! j =
        (if slice_rows s' batch ! i ! j = clip_bound self then 0 else ?S ! i ! j)"
    unfolding S' using new_search_space_nth[of ?S "slice_rows s' batch" ?F _ _ self] lS lB' rS rB'
    by simp
  from sal lfi row el un ch ssn that show thesis by blast
qed

lemma while_active_rows:
  assumes "batch_ok self batch ss af s" and "\<forall>i \<in> set active. i < stop batch - start batch"
  shows "map_option (map_sum id (\<lambda>s'. (slice_rows s' batch, heap s' ss)))
           (while_active fuel self batch ss af target active s) =
         run_rows fuel self target (heap s af) active (slice_rows s batch) (heap s ss)"
  using assms
proof (induction fuel arbitrary: active s)
  case 0
  then show ?case by simp
next
  case (Suc fuel)
  show ?case
  proof (cases "active = []")
    case True
    then show ?thesis by simp
  next
    case False
    show ?thesis
    proof (cases "saliency_map self (take_rows (slice_rows s batch) active) (take_rows target active)
                  (take_rows (heap s ss) active)")
      case (Inl e)
      with False loop_body_Inl[OF Inl] show ?thesis by simp
    next
      case (Inr fi)
      let ?B = "new_batch self (slice_rows s batch) active fi"
      let ?S = "new_search_space self (heap s ss) ?B"
      let ?a = "still_active self (np_argmax (predict (classifier self) ?B)) target (heap s af) ?S"
      from loop_body_Inr[OF Suc.prems Inr] obtain s1 where
        lb: "loop_body self batch ss af target active s = Inr (?a, s1)"
        and B: "slice_rows s1 batch = ?B" and S: "heap s1 ss = ?S" and A: "heap s1 af = heap s af"
        and ok1: "batch_ok self batch ss af s1"
        by blast
      from ok1 have "length (heap s1 ss) = stop batch - start batch" by (simp add: batch_ok_def)
      then have act1: "\<forall>i \<in> set ?a. i < stop batch - start batch"
        unfolding S[symmetric] using still_active_bound by fastforce
      have w: "while_active (Suc fuel) self batch ss af target active s =
          while_active fuel self batch ss af target ?a s1"
        using False lb by simp
      have r: "run_rows (Suc fuel) self target (heap s af) active (slice_rows s batch) (heap s ss) =
          run_rows fuel self target (heap s af) ?a ?B ?S"
        using False Inr by (simp add: Let_def)
      show ?thesis
        unfolding w r using Suc.IH[OF ok1 act1] by (simp only: B S A)
    qed
  qed
qed

lemma while_active_None_iff:
  assumes "batch_ok self batch ss af s" and "\<forall>i \<in> set active. i < stop batch - start batch"
  shows "while_active fuel self batch ss af target active s = None \<longleftrightarrow>
         run_rows fuel self target (heap s af) active (slice_rows s batch) (heap s ss) = None"
proof -
  have "map_option (map_sum id (\<lambda>s'. (slice_rows s' batch, heap s' ss)))
           (while_active fuel self batch ss af target active s) = None \<longleftrightarrow>
        while_active fuel self batch ss af target active s = None"
    by simp
  then show ?thesis unfolding while_active_rows[OF assms] by simp
qed

subsection \<open>Termination\<close>

lemma ceiling_step:
  fixes x :: real
  assumes "0 < x"
  shows "nat \<lceil>x - 1\<rceil> < nat \<lceil>x\<rceil>"
proof -
  from assms have "0 < \<lceil>x\<rceil>" by simp
  moreover have "\<lceil>x - 1\<rceil> = \<lceil>x\<rceil> - 1" by simp
  ultimately show ?thesis by simp
qed

lemma steps_perturbed_less:
  assumes "theta self \<noteq> 0" "eligible_value self v"
  shows "steps_to_bound self (perturbed self v) < steps_to_bound self v"
proof (cases "theta self > 0")
  case True
  let ?c = "snd (clip_values (classifier self))"
  from assms True have v: "v < ?c" by (simp add: eligible_value_def)
  have x: "0 < (?c - v) / theta self" using v True by simp
  have sv: "steps_to_bound self v = nat \<lceil>(?c - v) / theta self\<rceil>"
    using v True by (simp add: steps_to_bound_def eligible_value_def clip_bound_eq)
  have pos: "0 < nat \<lceil>(?c - v) / theta self\<rceil>" using x by simp
  show ?thesis
  proof (cases "v + theta self < ?c")
    case False
    with True have "perturbed self v = ?c" by (simp add: perturbed_eq)
    then have "steps_to_bound self (perturbed self v) = 0"
      using True by (simp add: steps_to_bound_def eligible_value_def)
    with sv pos show ?thesis by simp
  next
    case lt: True
    with True have p: "perturbed self v = v + theta self" by (simp add: perturbed_eq)
    have "(?c - (v + theta self)) / theta self = (?c - v) / theta self - 1"
      using True by (simp add: field_simps)
    then have "steps_to_bound self (perturbed self v) = nat \<lceil>(?c - v) / theta self - 1\<rceil>"
      using lt True by (simp add: p steps_to_bound_def eligible_value_def clip_bound_eq)
    with ceiling_step[OF x] sv show ?thesis by simp
  qed
next
  case False
  with assms have neg: "theta self < 0" by simp
  let ?c = "fst (clip_values (classifier self))"
  from assms False have v: "?c < v" by (simp add: eligible_value_def)
  have x: "0 < (?c - v) / theta self" using v neg by (simp add: field_simps)
  have sv: "steps_to_bound self v = nat \<lceil>(?c - v) / theta self\<rceil>"
    using v False by (simp add: steps_to_bound_def eligible_value_def clip_bound_eq)
  have pos: "0 < nat \<lceil>(?c - v) / theta self\<rceil>" using x by simp
  show ?thesis
  proof (cases "?c < v + theta self")
    case nlt: False
    with False have "perturbed self v = ?c" by (simp add: perturbed_eq)
    then have "steps_to_bound self (perturbed self v) = 0"
      using False by (simp add: steps_to_bound_def eligible_value_def)
    with sv pos show ?thesis by simp
  next
    case lt: True
    with False have p: "perturbed self v = v + theta self" by (simp add: perturbed_eq)
    have "(?c - (v + theta self)) / theta self = (?c - v) / theta self - 1"
      using neg by (simp add: field_simps)
    then have "steps_to_bound self (perturbed self v) = nat \<lceil>(?c - v) / theta self - 1\<rceil>"
      using lt False by (simp add: p steps_to_bound_def eligible_value_def clip_bound_eq)
    with ceiling_step[OF x] sv show ?thesis by simp
  qed
qed

lemma perturbed_not_eligible:
  assumes "\<not> eligible_value self v"
  shows "\<not> eligible_value self (perturbed self v)"
  using assms by (auto simp: eligible_value_def perturbed_eq)

lemma steps_perturbed_le:
  assumes "theta self \<noteq> 0"
  shows "steps_to_bound self (perturbed self v) \<le> steps_to_bound self v"
proof (cases "eligible_value self v")
  case True
  from steps_perturbed_less[OF assms True] show ?thesis by simp
next
  case False
  from perturbed_not_eligible[OF False] False show ?thesis by (simp add: steps_to_bound_def)
qed

lemma perturbed_eligible:
  assumes "eligible_value self v" "perturbed self v \<noteq> clip_bound self"
  shows "eligible_value self (perturbed self v)"
  using assms by (auto simp: eligible_value_def perturbed_eq clip_bound_eq split: if_splits)

lemma sum_list_map_update:
  fixes f :: "'a \<Rightarrow> nat"
  shows "i < length xs \<Longrightarrow> sum_list (map f (xs[i := x])) + f (xs ! i) = sum_list (map f xs) + f x"
proof (induction xs arbitrary: i)
  case Nil
  then show ?case by simp
next
  case (Cons y ys)
  then show ?case by (cases i) auto
qed

lemma elem_le_sum_list_map:
  fixes f :: "'a \<Rightarrow> nat"
  shows "i < length xs \<Longrightarrow> f (xs ! i) \<le> sum_list (map f xs)"
proof (induction xs arbitrary: i)
  case Nil
  then show ?case by simp
next
  case (Cons y ys)
  show ?case
  proof (cases i)
    case 0
    then show ?thesis by simp
  next
    case (Suc k)
    with Cons.prems have "k < length ys" by simp
    from Cons.IH[OF this] Suc show ?thesis by simp
  qed
qed

lemma sum_list_pos_nth:
  fixes r :: "real list"
  assumes "0 < sum_list r"
  shows "\<exists>j < length r. r ! j \<noteq> 0"
proof (rule ccontr)
  assume "\<not> (\<exists>j < length r. r ! j \<noteq> 0)"
  then have "\<forall>x \<in> set r. x = 0" by (auto simp: in_set_conv_nth)
  then have "sum_list r = 0" by (induction r) auto
  with assms show False by simp
qed

lemma steps_pos: "theta self \<noteq> 0 \<Longrightarrow> eligible_value self v \<Longrightarrow> 0 < steps_to_bound self v"
  using steps_perturbed_less[of self v] by simp

lemma row_steps_perturb_row:
  assumes th: "theta self \<noteq> 0" and c: "fst c \<noteq> snd c" "fst c < length r" "snd c < length r"
  shows "row_steps self (perturb_row self r c) \<le> row_steps self r"
    and "eligible_value self (r ! snd c) \<Longrightarrow> row_steps self (perturb_row self r c) < row_steps self r"
proof -
  let ?r1 = "r[fst c := perturbed self (r ! fst c)]"
  let ?r2 = "?r1[snd c := perturbed self (?r1 ! snd c)]"
  have p: "perturb_row self r c = ?r2" by (simp add: perturb_row_def Let_def)
  have b: "?r1 ! snd c = r ! snd c" using c by simp
  have 1: "row_steps self ?r1 + steps_to_bound self (r ! fst c) =
           row_steps self r + steps_to_bound self (perturbed self (r ! fst c))"
    unfolding row_steps_def using c(2) by (rule sum_list_map_update)
  have 2: "row_steps self ?r2 + steps_to_bound self (r ! snd c) =
           row_steps self ?r1 + steps_to_bound self (perturbed self (r ! snd c))"
    unfolding row_steps_def using sum_list_map_update[of "snd c" ?r1 "steps_to_bound self"
        "perturbed self (?r1 ! snd c)"] c(3) b by simp
  from 1 2 steps_perturbed_le[OF th, of "r ! fst c"] steps_perturbed_le[OF th, of "r ! snd c"]
  show "row_steps self (perturb_row self r c) \<le> row_steps self r"
    unfolding p by linarith
  assume "eligible_value self (r ! snd c)"
  from 1 2 steps_perturbed_le[OF th, of "r ! fst c"] steps_perturbed_less[OF th this]
  show "row_steps self (perturb_row self r c) < row_steps self r"
    unfolding p by linarith
qed

lemma total_steps_update:
  "i < length a \<Longrightarrow> total_steps self (a[i := v]) + row_steps self (a ! i) = total_steps self a + row_steps self v"
  unfolding total_steps_def by (rule sum_list_map_update)

lemma total_steps_put_rows:
  assumes "distinct idx"
    and "\<forall>k < length idx. k < length vals \<longrightarrow>
           idx ! k < length a \<and> row_steps self (vals ! k) \<le> row_steps self (a ! (idx ! k))"
  shows "total_steps self (put_rows a idx vals) \<le> total_steps self a"
  using assms
proof (induction a idx vals rule: put_rows.induct)
  case (1 a i idx v vals)
  from "1.prems"(2)[rule_format, of 0] have i: "i < length a" and v: "row_steps self v \<le> row_steps self (a ! i)"
    by simp_all
  from total_steps_update[OF i, of self v] v have le: "total_steps self (a[i := v]) \<le> total_steps self a"
    by linarith
  have "\<forall>k < length idx. k < length vals \<longrightarrow>
      idx ! k < length (a[i := v]) \<and> row_steps self (vals ! k) \<le> row_steps self (a[i := v] ! (idx ! k))"
  proof (intro allI impI)
    fix k assume k: "k < length idx" "k < length vals"
    from "1.prems"(2)[rule_format, of "Suc k"] k
    have a: "idx ! k < length a" "row_steps self (vals ! k) \<le> row_steps self (a ! (idx ! k))"
      by simp_all
    from "1.prems"(1) k(1) have "idx ! k \<noteq> i" by auto
    with a show "idx ! k < length (a[i := v]) \<and>
        row_steps self (vals ! k) \<le> row_steps self (a[i := v] ! (idx ! k))" by simp
  qed
  with "1.IH" "1.prems"(1) have "total_steps self (put_rows (a[i := v]) idx vals) \<le> total_steps self (a[i := v])"
    by simp
  with le show ?case by simp
qed simp_all

lemma total_steps_put_rows_less:
  assumes "distinct idx"
    and "\<forall>k < length idx. k < length vals \<longrightarrow>
           idx ! k < length a \<and> row_steps self (vals ! k) \<le> row_steps self (a ! (idx ! k))"
    and "idx \<noteq> []" "vals \<noteq> []" "row_steps self (vals ! 0) < row_steps self (a ! (idx ! 0))"
  shows "total_steps self (put_rows a idx vals) < total_steps self a"
proof -
  from assms(3,4) obtain i idx' v vals' where e: "idx = i # idx'" "vals = v # vals'"
    by (cases idx; cases vals) auto
  from assms(2)[rule_format, of 0] e have i: "i < length a" by simp
  from assms(5) e have v: "row_steps self v < row_steps self (a ! i)" by simp
  from total_steps_update[OF i, of self v] v have lt: "total_steps self (a[i := v]) < total_steps self a"
    by linarith
  have "\<forall>k < length idx'. k < length vals' \<longrightarrow>
      idx' ! k < length (a[i := v]) \<and> row_steps self (vals' ! k) \<le> row_steps self (a[i := v] ! (idx' ! k))"
  proof (intro allI impI)
    fix k assume k: "k < length idx'" "k < length vals'"
    from assms(2)[rule_format, of "Suc k"] k e
    have a: "idx' ! k < length a" "row_steps self (vals' ! k) \<le> row_steps self (a ! (idx' ! k))"
      by simp_all
    from assms(1) e k(1) have "idx' ! k \<noteq> i" by auto
    with a show "idx' ! k < length (a[i := v]) \<and>
        row_steps self (vals' ! k) \<le> row_steps self (a[i := v] ! (idx' ! k))" by simp
  qed
  with total_steps_put_rows[of idx' vals' "a[i := v]" self] assms(1) e
  have "total_steps self (put_rows (a[i := v]) idx' vals') \<le> total_steps self (a[i := v])" by simp
  with lt e show ?thesis by simp
qed

lemma new_batch_total_steps:
  assumes th: "theta self \<noteq> 0"
    and rows: "\<forall>r \<in> set B. length r = nb_features self"
    and act: "\<forall>i \<in> set active. i < length B" and dist: "distinct active"
    and fi: "feat_ind_ok (nb_features self) active fi"
  shows "total_steps self (new_batch self B active fi) \<le> total_steps self B"
    and "active \<noteq> [] \<Longrightarrow> eligible_value self (B ! (active ! 0) ! snd (fi ! 0)) \<Longrightarrow>
         total_steps self (new_batch self B active fi) < total_steps self B"
proof -
  let ?vals = "map (\<lambda>(row, c). perturb_row self row c) (zip (take_rows B active) fi)"
  from fi have lfi: "length fi = length active" by (simp add: feat_ind_ok_def)
  have vk: "\<And>k. k < length active \<Longrightarrow> ?vals ! k = perturb_row self (B ! (active ! k)) (fi ! k)"
    using lfi by simp
  have c: "\<And>k. k < length active \<Longrightarrow> fst (fi ! k) \<noteq> snd (fi ! k) \<and>
      fst (fi ! k) < length (B ! (active ! k)) \<and> snd (fi ! k) < length (B ! (active ! k))"
  proof -
    fix k assume k: "k < length active"
    with act have "active ! k < length B" by simp
    with rows have "length (B ! (active ! k)) = nb_features self" by simp
    with fi k show "fst (fi ! k) \<noteq> snd (fi ! k) \<and>
      fst (fi ! k) < length (B ! (active ! k)) \<and> snd (fi ! k) < length (B ! (active ! k))"
      by (simp add: feat_ind_ok_def)
  qed
  have le: "\<forall>k < length active. k < length ?vals \<longrightarrow>
      active ! k < length B \<and> row_steps self (?vals ! k) \<le> row_steps self (B ! (active ! k))"
  proof (intro allI impI)
    fix k assume k: "k < length active"
    from c[OF k] have "row_steps self (perturb_row self (B ! (active ! k)) (fi ! k))
        \<le> row_steps self (B ! (active ! k))"
      by (intro row_steps_perturb_row(1)[OF th]) simp_all
    with k act vk show "active ! k < length B \<and>
        row_steps self (?vals ! k) \<le> row_steps self (B ! (active ! k))" by simp
  qed
  show "total_steps self (new_batch self B active fi) \<le> total_steps self B"
    unfolding new_batch_def by (rule total_steps_put_rows[OF dist le])
  assume ne: "active \<noteq> []" and el: "eligible_value self (B ! (active ! 0) ! snd (fi ! 0))"
  from ne have k0: "0 < length active" by simp
  from c[OF k0] el have "row_steps self (perturb_row self (B ! (active ! 0)) (fi ! 0))
        < row_steps self (B ! (active ! 0))"
    by (intro row_steps_perturb_row(2)[OF th]) simp_all
  with vk[OF k0] have lt: "row_steps self (?vals ! 0) < row_steps self (B ! (active ! 0))" by simp
  from k0 lfi have "length ?vals = length active" by simp
  with k0 have vne: "?vals \<noteq> []" by force
  show "total_steps self (new_batch self B active fi) < total_steps self B"
    unfolding new_batch_def by (rule total_steps_put_rows_less[OF dist le ne vne lt])
qed

lemma new_batch_cell:
  assumes rows: "\<forall>r \<in> set B. length r = nb_features self"
    and act: "\<forall>i \<in> set active. i < length B" and dist: "distinct active"
    and fi: "feat_ind_ok (nb_features self) active fi"
    and i: "i < length B" and j: "j < nb_features self"
  shows "new_batch self B active fi ! i ! j = B ! i ! j \<or>
         new_batch self B active fi ! i ! j = perturbed self (B ! i ! j)"
proof (cases "i \<in> set active")
  case False
  then show ?thesis by (simp add: new_batch_nth_notin)
next
  case True
  then obtain k where k: "k < length active" "active ! k = i" by (auto simp: in_set_conv_nth)
  from fi have lfi: "length fi = length active" by (simp add: feat_ind_ok_def)
  from rows i have lr: "length (B ! i) = nb_features self" by simp
  have "new_batch self B active fi ! i = perturb_row self (B ! i) (fi ! k)"
    using new_batch_nth_active[OF dist k(1), of fi B self] lfi k i by simp
  moreover from fi k have "fst (fi ! k) \<noteq> snd (fi ! k)" "fst (fi ! k) < nb_features self"
      "snd (fi ! k) < nb_features self"
    by (simp_all add: feat_ind_ok_def)
  ultimately show ?thesis using lr j by (simp add: perturb_row_nth)
qed

lemma search_space_ok_step:
  assumes rows: "\<forall>r \<in> set B. length r = nb_features self"
    and lS: "length S = length B" and rS: "\<forall>r \<in> set S. length r = nb_features self"
    and act: "\<forall>i \<in> set active. i < length B" and dist: "distinct active"
    and fi: "feat_ind_ok (nb_features self) active fi"
    and ok: "search_space_ok self B S"
  shows "search_space_ok self (new_batch self B active fi)
           (new_search_space self S (new_batch self B active fi))"
  unfolding search_space_ok_def
proof (intro allI impI)
  let ?B = "new_batch self B active fi"
  fix i j assume i: "i < length ?B" and j: "j < nb_features self"
    and nz: "new_search_space self S ?B ! i ! j \<noteq> 0"
  from i have i': "i < length B" by simp
  have rB: "\<forall>r \<in> set ?B. length r = nb_features self"
    by (rule new_batch_row_length[OF act rows])
  from lS have lS': "length S = length ?B" by simp
  from new_search_space_nth[OF lS' rS rB i j, of self] nz
  have nb: "?B ! i ! j \<noteq> clip_bound self" and s: "S ! i ! j \<noteq> 0"
    by (auto split: if_splits)
  from ok s i' j have el: "eligible_value self (B ! i ! j)" by (simp add: search_space_ok_def)
  from new_batch_cell[OF rows act dist fi i' j] show "eligible_value self (?B ! i ! j)"
  proof
    assume "?B ! i ! j = B ! i ! j"
    with el show ?thesis by simp
  next
    assume p: "?B ! i ! j = perturbed self (B ! i ! j)"
    with nb perturbed_eligible[OF el] show ?thesis by simp
  qed
qed

lemma saliency_map_feat_ind_ok:
  assumes sal: "saliency_map self (take_rows B active) (take_rows target active) (take_rows S active) = Inr fi"
    and wf: "wf_classifier (nb_features self) (classifier self)"
    and act: "\<forall>i \<in> set active. i < length S" and rS: "\<forall>r \<in> set S. length r = nb_features self"
  shows "feat_ind_ok (nb_features self) active fi"
    and "\<forall>k < length active. (\<exists>j < nb_features self. S ! (active ! k) ! j \<noteq> 0) \<longrightarrow>
           S ! (active ! k) ! snd (fi ! k) \<noteq> 0"
proof -
  have l: "length (take_rows S active) = length (take_rows B active)" by simp
  have r: "\<forall>r \<in> set (take_rows S active). length r = nb_features self"
    by (rule set_take_rows_length[OF act rS])
  have lfi: "length fi = length active"
    using saliency_map_length[OF sal wf l r] by simp
  have row: "\<And>k. k < length active \<Longrightarrow> fst (fi ! k) \<noteq> snd (fi ! k) \<and>
      fst (fi ! k) < nb_features self \<and> snd (fi ! k) < nb_features self"
    using saliency_map_row[OF sal wf l r] by simp
  from lfi row show "feat_ind_ok (nb_features self) active fi" by (simp add: feat_ind_ok_def)
  show "\<forall>k < length active. (\<exists>j < nb_features self. S ! (active ! k) ! j \<noteq> 0) \<longrightarrow>
           S ! (active ! k) ! snd (fi ! k) \<noteq> 0"
    using saliency_map_eligible(1)[OF sal wf l r] by simp
qed

lemma total_steps_pos:
  assumes th: "theta self \<noteq> 0" and i: "i < length B" and j: "j < length (B ! i)"
    and el: "eligible_value self (B ! i ! j)"
  shows "0 < total_steps self B"
proof -
  have "steps_to_bound self (B ! i ! j) \<le> row_steps self (B ! i)"
    unfolding row_steps_def using j by (rule elem_le_sum_list_map)
  also have "\<dots> \<le> total_steps self B"
    unfolding total_steps_def using i by (rule elem_le_sum_list_map)
  finally show ?thesis using steps_pos[OF th el] by simp
qed

lemma run_rows_terminates:
  assumes "length B = n" "\<forall>r \<in> set B. length r = nb_features self"
    and "length S = n" "\<forall>r \<in> set S. length r = nb_features self"
    and "\<forall>i \<in> set active. i < n" "distinct active"
    and wf: "wf_classifier (nb_features self) (classifier self)"
    and th: "theta self \<noteq> 0"
    and "search_space_ok self B S"
    and "\<forall>i \<in> set active. 0 < sum_list (S ! i)"
    and "total_steps self B \<le> fuel"
  shows "run_rows fuel self target A active B S \<noteq> None"
  using assms(1-6,9-11)
proof (induction fuel arbitrary: active B S)
  case 0
  show ?case
  proof (cases "active = []")
    case True
    then show ?thesis by simp
  next
    case False
    then have a0: "active ! 0 \<in> set active" by simp
    with 0 have i: "active ! 0 < length B" and pos: "0 < sum_list (S ! (active ! 0))" by simp_all
    from sum_list_pos_nth[OF pos] obtain j where j: "j < length (S ! (active ! 0))"
      "S ! (active ! 0) ! j \<noteq> 0" by blast
    from i 0 have "length (S ! (active ! 0)) = nb_features self" "length (B ! (active ! 0)) = nb_features self"
      by simp_all
    with j 0(7) i have "eligible_value self (B ! (active ! 0) ! j)" "j < length (B ! (active ! 0))"
      by (simp_all add: search_space_ok_def)
    from total_steps_pos[OF th i this(2,1)] 0(9) show ?thesis by simp
  qed
next
  case (Suc fuel)
  note lB = Suc.prems(1) and rB = Suc.prems(2) and lS = Suc.prems(3) and rS = Suc.prems(4)
    and act = Suc.prems(5) and dist = Suc.prems(6) and ok = Suc.prems(7) and J = Suc.prems(8)
    and tot = Suc.prems(9)
  show ?case
  proof (cases "active = []")
    case True
    then show ?thesis by simp
  next
    case False
    show ?thesis
    proof (cases "saliency_map self (take_rows B active) (take_rows target active) (take_rows S active)")
      case (Inl e)
      with False show ?thesis by simp
    next
      case (Inr fi)
      let ?B = "new_batch self B active fi"
      let ?S = "new_search_space self S ?B"
      let ?a = "still_active self (np_argmax (predict (classifier self) ?B)) target A ?S"
      have actB: "\<forall>i \<in> set active. i < length B" and actS: "\<forall>i \<in> set active. i < length S"
        using act lB lS by simp_all
      note fi = saliency_map_feat_ind_ok[OF Inr wf actS rS]
      have lB': "length ?B = n" using lB by simp
      have rB': "\<forall>r \<in> set ?B. length r = nb_features self"
        by (rule new_batch_row_length[OF actB rB])
      have lS0: "length S = length ?B" using lS lB by simp
      have lS': "length ?S = n" using new_search_space_shape(1)[OF lS0 rS rB', of self] lB' by simp
      have rS': "\<forall>r \<in> set ?S. length r = nb_features self"
        by (rule new_search_space_shape(2)[OF lS0 rS rB'])
      have act': "\<forall>i \<in> set ?a. i < n" using still_active_bound[of _ self _ target A ?S] lS' by auto
      have d': "distinct ?a" by simp
      have lSB: "length S = length B" using lS lB by simp
      have ok': "search_space_ok self ?B ?S"
        by (rule search_space_ok_step[OF rB lSB rS actB dist fi(1) ok])
      have J': "\<forall>i \<in> set ?a. 0 < sum_list (?S ! i)" by (simp add: still_active_iff)
      from False have k0: "0 < length active" and a0: "active ! 0 \<in> set active" by simp_all
      from J a0 have "0 < sum_list (S ! (active ! 0))" by simp
      from sum_list_pos_nth[OF this] obtain j where j: "j < length (S ! (active ! 0))"
        "S ! (active ! 0) ! j \<noteq> 0" by blast
      from a0 actS rS have "length (S ! (active ! 0)) = nb_features self" by simp
      with j fi(2) k0 have "S ! (active ! 0) ! snd (fi ! 0) \<noteq> 0" by auto
      moreover from fi(1) k0 have "snd (fi ! 0) < nb_features self" by (simp add: feat_ind_ok_def)
      ultimately have el: "eligible_value self (B ! (active ! 0) ! snd (fi ! 0))"
        using ok a0 actB by (simp add: search_space_ok_def)
      from new_batch_total_steps(2)[OF th rB actB dist fi(1) False el] tot
      have tot': "total_steps self ?B \<le> fuel" by simp
      from Suc.IH[OF lB' rB' lS' rS' act' d' ok' J' tot'] False Inr show ?thesis
        by (simp add: Let_def)
    qed
  qed
qed

lemma run_rows_terminates_first:
  assumes "length B = n" "\<forall>r \<in> set B. length r = nb_features self"
    and "length S = n" "\<forall>r \<in> set S. length r = nb_features self"
    and "\<forall>i \<in> set active. i < n" "distinct active"
    and wf: "wf_classifier (nb_features self) (classifier self)"
    and th: "theta self \<noteq> 0"
    and "search_space_ok self B S"
    and "total_steps self B < fuel"
  shows "run_rows fuel self target A active B S \<noteq> None"
proof (cases fuel)
  case 0
  with assms show ?thesis by simp
next
  case (Suc k)
  note lB = assms(1) and rB = assms(2) and lS = assms(3) and rS = assms(4)
    and act = assms(5) and dist = assms(6) and ok = assms(9)
  show ?thesis
  proof (cases "active = []")
    case True
    with Suc show ?thesis by simp
  next
    case False
    show ?thesis
    proof (cases "saliency_map self (take_rows B active) (take_rows target active) (take_rows S active)")
      case (Inl e)
      with False Suc show ?thesis by simp
    next
      case (Inr fi)
      let ?B = "new_batch self B active fi"
      let ?S = "new_search_space self S ?B"
      let ?a = "still_active self (np_argmax (predict (classifier self) ?B)) target A ?S"
      have actB: "\<forall>i \<in> set active. i < length B" and actS: "\<forall>i \<in> set active. i < length S"
        using act lB lS by simp_all
      note fi = saliency_map_feat_ind_ok[OF Inr wf actS rS]
      have lB': "length ?B = n" using lB by simp
      have rB': "\<forall>r \<in> set ?B. length r = nb_features self"
        by (rule new_batch_row_length[OF actB rB])
      have lS0: "length S = length ?B" using lS lB by simp
      have lS': "length ?S = n" using new_search_space_shape(1)[OF lS0 rS rB', of self] lB' by simp
      have rS': "\<forall>r \<in> set ?S. length r = nb_features self"
        by (rule new_search_space_shape(2)[OF lS0 rS rB'])
      have act': "\<forall>i \<in> set ?a. i < n" using still_active_bound[of _ self _ target A ?S] lS' by auto
      have d': "distinct ?a" by simp
      have lSB: "length S = length B" using lS lB by simp
      have ok': "search_space_ok self ?B ?S"
        by (rule search_space_ok_step[OF rB lSB rS actB dist fi(1) ok])
      have J': "\<forall>i \<in> set ?a. 0 < sum_list (?S ! i)" by (simp add: still_active_iff)
      from new_batch_total_steps(1)[OF th rB actB dist fi(1)] assms(10) Suc
      have tot': "total_steps self ?B \<le> k" by simp
      from run_rows_terminates[OF lB' rB' lS' rS' act' d' wf th ok' J' tot', of target A] False Inr Suc
      show ?thesis by (simp add: Let_def)
    qed
  qed
qed

lemma initial_search_space_nth:
  assumes "i < length B" "j < length (B ! i)"
  shows "initial_search_space self B ! i ! j = (if eligible_value self (B ! i ! j) then 1 else 0)"
  using assms
  by (simp add: initial_search_space_def zeros_like_def elementwise_def put_mask_nth eligible_value_def)

lemma initial_search_space_shape:
  assumes "\<forall>r \<in> set B. length r = n"
  shows "length (initial_search_space self B) = length B"
    and "\<forall>r \<in> set (initial_search_space self B). length r = n"
proof -
  show "length (initial_search_space self B) = length B"
    by (simp add: initial_search_space_def zeros_like_def elementwise_def)
  show "\<forall>r \<in> set (initial_search_space self B). length r = n"
    unfolding all_set_conv_all_nth using assms
    by (simp add: initial_search_space_def zeros_like_def elementwise_def length_put_mask_nth)
qed

lemma initial_search_space_ok:
  assumes "\<forall>r \<in> set B. length r = nb_features self"
  shows "search_space_ok self B (initial_search_space self B)"
  unfolding search_space_ok_def using assms by (simp add: initial_search_space_nth)

lemma total_steps_append [simp]:
  "total_steps self (a @ b) = total_steps self a + total_steps self b"
  by (simp add: total_steps_def)

lemma total_steps_take_drop:
  "total_steps self (take n (drop k a)) \<le> total_steps self a"
proof -
  have "total_steps self (drop k a) =
      total_steps self (take n (drop k a)) + total_steps self (drop n (drop k a))"
    by (metis append_take_drop_id total_steps_append)
  moreover have "total_steps self a = total_steps self (take k a) + total_steps self (drop k a)"
    by (metis append_take_drop_id total_steps_append)
  ultimately show ?thesis by simp
qed

lemma total_steps_slice_rows:
  "total_steps self (slice_rows s v) \<le> total_steps self (heap s (base v))"
  unfolding slice_rows_def by (rule total_steps_take_drop)

lemma slice_rows_nth:
  assumes "start v \<le> stop v" "stop v \<le> length (heap s (base v))" "i < stop v - start v"
  shows "slice_rows s v ! i = heap s (base v) ! (start v + i)"
  using assms by (simp add: slice_rows_def)

lemma loop_body_total_steps:
  assumes ok: "batch_ok self batch ss af s"
    and act: "\<forall>i \<in> set active. i < stop batch - start batch"
    and dist: "distinct active"
    and wf: "wf_classifier (nb_features self) (classifier self)"
    and th: "theta self \<noteq> 0"
    and lb: "loop_body self batch ss af target active s = Inr (active', s1)"
  shows "total_steps self (heap s1 (base batch)) \<le> total_steps self (heap s (base batch))"
proof -
  let ?B = "slice_rows s batch" and ?a = "heap s (base batch)"
  let ?idx = "map (\<lambda>i. start batch + i) active"
  from lb ok act obtain fi where
    sal: "saliency_map self (take_rows ?B active) (take_rows target active)
       (take_rows (heap s ss) active) = Inr fi"
    and h: "heap s1 (base batch) = put_rows ?a ?idx
         (map (\<lambda>(row, c). perturb_row self row c) (zip (take_rows ?B active) fi))"
    by (rule loop_body_InrE)
  let ?vals = "map (\<lambda>(row, c). perturb_row self row c) (zip (take_rows ?B active) fi)"
  from ok have b: "start batch \<le> stop batch" "stop batch \<le> length ?a"
    and lS: "length (heap s ss) = stop batch - start batch"
    and rB: "\<forall>r \<in> set ?B. length r = nb_features self"
    and rS: "\<forall>r \<in> set (heap s ss). length r = nb_features self"
    by (simp_all add: batch_ok_def)
  have lB: "length ?B = stop batch - start batch" using b by (simp add: length_slice_rows)
  have actS: "\<forall>i \<in> set active. i < length (heap s ss)" using act lS by simp
  from saliency_map_feat_ind_ok(1)[OF sal wf actS rS]
  have fi: "feat_ind_ok (nb_features self) active fi" .
  then have lfi: "length fi = length active" by (simp add: feat_ind_ok_def)
  have d: "distinct ?idx" using dist by (simp add: distinct_map inj_on_def)
  have "\<forall>k < length ?idx. k < length ?vals \<longrightarrow>
      ?idx ! k < length ?a \<and> row_steps self (?vals ! k) \<le> row_steps self (?a ! (?idx ! k))"
  proof (intro allI impI)
    fix k assume "k < length ?idx"
    then have k: "k < length active" by simp
    with act have ak: "active ! k < stop batch - start batch" by simp
    from slice_rows_nth[OF b ak] have r: "?B ! (active ! k) = ?a ! (start batch + active ! k)" .
    from ak lB rB have lr: "length (?B ! (active ! k)) = nb_features self" by simp
    from fi k lr have c: "fst (fi ! k) \<noteq> snd (fi ! k)" "fst (fi ! k) < length (?B ! (active ! k))"
        "snd (fi ! k) < length (?B ! (active ! k))"
      by (simp_all add: feat_ind_ok_def)
    have v: "?vals ! k = perturb_row self (?B ! (active ! k)) (fi ! k)" using k lfi by simp
    from row_steps_perturb_row(1)[OF th c] v r k ak b
    show "?idx ! k < length ?a \<and> row_steps self (?vals ! k) \<le> row_steps self (?a ! (?idx ! k))"
      by simp
  qed
  from total_steps_put_rows[OF d this] show ?thesis unfolding h .
qed

lemma loop_body_no_error:
  "loop_body self batch ss af target active s = Inl e \<Longrightarrow> nb_features self < 2"
  by (auto simp: loop_body_def saliency_map_def Let_def split: sum.splits if_splits)

lemma while_active_no_error:
  "2 \<le> nb_features self \<Longrightarrow> while_active fuel self batch ss af target active s \<noteq> Some (Inl e)"
proof (induction fuel arbitrary: active s)
  case 0
  then show ?case by simp
next
  case (Suc fuel)
  show ?case
  proof (cases "loop_body self batch ss af target active s")
    case (Inl e')
    with loop_body_no_error[OF Inl] Suc.prems show ?thesis by simp
  next
    case (Inr p)
    with Suc show ?thesis by (cases p) simp
  qed
qed

lemma while_active_terminates:
  assumes ok: "batch_ok self batch ss af s"
    and act: "\<forall>i \<in> set active. i < stop batch - start batch" and dist: "distinct active"
    and wf: "wf_classifier (nb_features self) (classifier self)"
    and th: "theta self \<noteq> 0"
    and sok: "search_space_ok self (slice_rows s batch) (heap s ss)"
    and tot: "total_steps self (slice_rows s batch) < fuel"
  shows "while_active fuel self batch ss af target active s \<noteq> None"
proof -
  from ok have lB: "length (slice_rows s batch) = stop batch - start batch"
    and lS: "length (heap s ss) = stop batch - start batch"
    and rB: "\<forall>r \<in> set (slice_rows s batch). length r = nb_features self"
    and rS: "\<forall>r \<in> set (heap s ss). length r = nb_features self"
    by (simp_all add: batch_ok_def length_slice_rows)
  from run_rows_terminates_first[OF lB rB lS rS act dist wf th sok tot]
  show ?thesis unfolding while_active_None_iff[OF ok act] .
qed

lemma process_batch_terminates:
  assumes x: "x_adv < nxt s" and a: "array_ok self n (heap s x_adv)" and lp: "length preds \<le> n"
    and wf: "wf_classifier (nb_features self) (classifier self)"
    and th: "theta self \<noteq> 0"
    and tot: "total_steps self (heap s x_adv) < fuel"
  shows "process_batch fuel self x_adv preds targets bid s \<noteq> None"
proof -
  let ?batch = "batch_of self s x_adv bid"
  let ?s0 = "batch_start self ?batch s"
  let ?target = "slice_list targets (bid * nat (batch_size self)) ((bid + 1) * nat (batch_size self))"
  let ?active = "initial_active
     (slice_list preds (bid * nat (batch_size self)) ((bid + 1) * nat (batch_size self))) ?target"
  from a have rows: "\<forall>r \<in> set (heap s x_adv). length r = nb_features self" and n: "length (heap s x_adv) = n"
    by (simp_all add: array_ok_def)
  have b: "base ?batch = x_adv" "start ?batch = min (bid * nat (batch_size self)) n"
      "stop ?batch = min ((bid + 1) * nat (batch_size self)) n"
    using n by (simp_all add: batch_of_def basic_slice_def)
  note ok0 = batch_ok_start(1)[OF x rows, of bid]
  note sl0 = batch_ok_start(2)[OF x rows, of bid]
  have act: "\<forall>i \<in> set ?active. i < stop ?batch - start ?batch"
    using initial_active_bound[OF lp] by (simp only: b)
  have d: "distinct ?active" by simp
  have rB: "\<forall>r \<in> set (slice_rows s ?batch). length r = nb_features self"
    using rows set_slice_rows[of s ?batch] b(1) by auto
  have h0: "heap ?s0 (nxt s) = initial_search_space self (slice_rows s ?batch)"
    by (simp add: batch_start_def)
  have sok: "search_space_ok self (slice_rows ?s0 ?batch) (heap ?s0 (nxt s))"
    unfolding sl0 h0 by (rule initial_search_space_ok[OF rB])
  have "total_steps self (slice_rows s ?batch) \<le> total_steps self (heap s x_adv)"
    using total_steps_slice_rows[of self s ?batch] b(1) by simp
  with tot have tot0: "total_steps self (slice_rows ?s0 ?batch) < fuel" unfolding sl0 by simp
  have "while_active fuel self ?batch (nxt s) (Suc (nxt s)) ?target ?active ?s0 \<noteq> None"
    by (rule while_active_terminates[OF ok0 act d wf th sok tot0])
  then show ?thesis
    unfolding process_batch_eq[OF x] by (auto split: option.splits sum.splits)
qed

lemma process_batch_total_steps:
  assumes p: "process_batch fuel self x_adv preds targets bid s = Some (Inr s')"
    and x: "x_adv < nxt s" and a: "array_ok self n (heap s x_adv)" and lp: "length preds \<le> n"
    and wf: "wf_classifier (nb_features self) (classifier self)"
    and th: "theta self \<noteq> 0"
  shows "x_adv < nxt s' \<and> array_ok self n (heap s' x_adv) \<and>
         total_steps self (heap s' x_adv) \<le> total_steps self (heap s x_adv)"
proof -
  let ?batch = "batch_of self s x_adv bid"
  let ?T = "total_steps self (heap s x_adv)"
  let ?I = "\<lambda>t. array_ok self n (heap t x_adv) \<and> total_steps self (heap t x_adv) \<le> ?T"
  have b: "base ?batch = x_adv" by (simp add: batch_of_def basic_slice_def)
  have h0: "heap (batch_start self ?batch s) x_adv = heap s x_adv"
    using x by (simp add: batch_start_def)
  have I0: "?I (batch_start self ?batch s)" unfolding h0 using a by simp
  have "batch_ok self ?batch (nxt s) (Suc (nxt s)) s' \<and> ?I s'"
    using p x a lp I0
  proof (rule process_batch_rule)
    fix target active t active' t1
    assume ok: "batch_ok self ?batch (nxt s) (Suc (nxt s)) t"
      and act: "\<forall>i \<in> set active. i < stop ?batch - start ?batch"
      and d: "distinct active" and I: "?I t"
      and lb: "loop_body self ?batch (nxt s) (Suc (nxt s)) target active t = Inr (active', t1)"
    from loop_body_array_ok[OF ok act _ lb, of n] I b
    have 1: "array_ok self n (heap t1 x_adv)" by simp
    from loop_body_total_steps[OF ok act d wf th lb] I b
    have 2: "total_steps self (heap t1 x_adv) \<le> ?T" by simp
    from 1 2 show "?I t1" by simp
  qed
  then show ?thesis using b by (simp add: batch_ok_def)
qed

lemma for_batches_terminates:
  assumes "x_adv < nxt s" and "array_ok self n (heap s x_adv)" and lp: "length preds \<le> n"
    and wf: "wf_classifier (nb_features self) (classifier self)"
    and th: "theta self \<noteq> 0"
    and "total_steps self (heap s x_adv) < fuel"
  shows "for_batches fuel self x_adv preds targets ids s \<noteq> None"
  using assms(1,2,6)
proof (induction ids arbitrary: s)
  case Nil
  then show ?case by simp
next
  case (Cons bid ids)
  from process_batch_terminates[OF Cons.prems(1,2) lp wf th Cons.prems(3), of targets bid]
  obtain res where p: "process_batch fuel self x_adv preds targets bid s = Some res" by blast
  show ?case
  proof (cases res)
    case (Inl e)
    with p show ?thesis by simp
  next
    case (Inr s1)
    with p have p1: "process_batch fuel self x_adv preds targets bid s = Some (Inr s1)" by simp
    from process_batch_total_steps[OF p1 Cons.prems(1,2) lp wf th] Cons.prems(3)
    have "x_adv < nxt s1" "array_ok self n (heap s1 x_adv)" "total_steps self (heap s1 x_adv) < fuel"
      by simp_all
    from Cons.IH[OF this] p1 show ?thesis by simp
  qed
qed

lemma process_batch_no_error:
  "2 \<le> nb_features self \<Longrightarrow> process_batch fuel self x_adv preds targets bid s \<noteq> Some (Inl e)"
  using while_active_no_error[of self fuel _ _ _ _ _ _ e]
  by (auto simp: process_batch_def Let_def case_prod_beta split: option.splits sum.splits)

lemma for_batches_no_error:
  "2 \<le> nb_features self \<Longrightarrow> for_batches fuel self x_adv preds targets ids s \<noteq> Some (Inl e)"
proof (induction ids arbitrary: s)
  case Nil
  then show ?case by simp
next
  case (Cons bid ids)
  with process_batch_no_error[OF Cons.prems, of fuel x_adv preds targets bid s] show ?case
    by (auto split: option.splits sum.splits)
qed

lemma total_steps_nb_features [simp]:
  "total_steps (self\<lparr>nb_features := n\<rparr>) a = total_steps self a"
proof -
  have "steps_to_bound (self\<lparr>nb_features := n\<rparr>) = steps_to_bound self"
    by (intro ext) (simp add: steps_to_bound_def eligible_value_def clip_bound_eq)
  then have "row_steps (self\<lparr>nb_features := n\<rparr>) = row_steps self"
    by (intro ext) (simp add: row_steps_def)
  then show ?thesis by (simp add: total_steps_def)
qed

lemma generate_terminates:
  assumes wfx: "wf_input s x"
    and wfc: "wf_classifier (np_product (tl (shape x))) (classifier self)"
    and th: "theta (Attack_set_params self kw) \<noteq> 0"
    and tot: "total_steps (Attack_set_params self kw) (heap s (buf x)) < fuel"
  shows "generate fuel rnd self x kw s \<noteq> None"
proof (cases "set_params self kw")
  case (Inl e)
  then show ?thesis by (simp add: generate_def)
next
  case (Inr self0)
  let ?self = "self0\<lparr>nb_features := np_product (tl (shape x))\<rparr>"
  let ?X = "heap s (buf x)"
  let ?s0 = "snd (alloc ?X s)"
  let ?preds = "np_argmax (predict (classifier ?self) ?X)"
  note sp = set_params_Inr[OF Inr]
  have c: "classifier ?self = classifier self" using sp(2) by simp
  have nf: "nb_features ?self = np_product (tl (shape x))" by simp
  have h0: "heap ?s0 (nxt s) = ?X" "nxt s < nxt ?s0" by (simp_all add: alloc_def)
  from wfx have a0: "array_ok ?self (length ?X) (heap ?s0 (nxt s))"
    unfolding h0 by (simp add: array_ok_def wf_input_def)
  from wfc have lp: "length ?preds \<le> length ?X" by (simp add: c wf_classifier_def)
  have wf': "wf_classifier (nb_features ?self) (classifier ?self)" using wfc c by simp
  have th': "theta ?self \<noteq> 0" using th sp(1) by simp
  have tot': "total_steps ?self (heap ?s0 (nxt s)) < fuel" unfolding h0 using tot sp(1) by simp
  note ft = for_batches_terminates[OF h0(2) a0 lp wf' th' tot']
  show ?thesis
  proof (cases "nb_features ?self = 0")
    case True
    with Inr show ?thesis by (simp add: generate_def Let_def)
  next
    case False
    show ?thesis
    proof (cases "resolve_targets rnd ?self kw ?preds")
      case (Inl e)
      with Inr False show ?thesis by (simp add: generate_def Let_def alloc_def)
    next
      case (Inr targets)
      with \<open>set_params self kw = Inr self0\<close> False
        ft[of targets "[0..<nat \<lceil>real (length ?X) / real_of_int (batch_size ?self)\<rceil>]"]
      show ?thesis
        by (auto simp: generate_def Let_def alloc_def split: option.splits sum.splits)
    qed
  qed
qed

lemma generate_returns:
  assumes wfx: "wf_input s x"
    and wfc: "wf_classifier (np_product (tl (shape x))) (classifier self)"
    and th: "theta (Attack_set_params self kw) \<noteq> 0"
    and tot: "total_steps (Attack_set_params self kw) (heap s (buf x)) < fuel"
    and sp: "set_params self kw = Inr self0"
    and nf: "2 \<le> np_product (tl (shape x))"
    and rt: "resolve_targets rnd (self0\<lparr>nb_features := np_product (tl (shape x))\<rparr>) kw
        (np_argmax (predict (classifier self) (heap s (buf x)))) = Inr targets"
  shows "\<exists>s'. generate fuel rnd self x kw s =
     Some (Inr (\<lparr>buf = nxt s, shape = shape x\<rparr>, self0\<lparr>nb_features := np_product (tl (shape x))\<rparr>, s'))"
proof -
  let ?self = "self0\<lparr>nb_features := np_product (tl (shape x))\<rparr>"
  let ?X = "heap s (buf x)"
  let ?ids = "[0..<nat \<lceil>real (length ?X) / real_of_int (batch_size ?self)\<rceil>]"
  let ?f = "for_batches fuel ?self (nxt s) (np_argmax (predict (classifier ?self) ?X)) targets ?ids
       (snd (alloc ?X s))"
  have c: "classifier ?self = classifier self" using set_params_Inr(2)[OF sp] by simp
  have g: "generate fuel rnd self x kw s =
      (case ?f of None \<Rightarrow> None | Some (Inl e) \<Rightarrow> Some (Inl e)
       | Some (Inr s') \<Rightarrow> Some (Inr (\<lparr>buf = nxt s, shape = shape x\<rparr>, ?self, s')))"
    using sp nf rt by (simp add: generate_def Let_def alloc_def c)
  from generate_terminates[OF wfx wfc th tot, of rnd] have "?f \<noteq> None"
    unfolding g by (auto split: option.splits)
  moreover have "\<And>e. ?f \<noteq> Some (Inl e)"
    by (rule for_batches_no_error) (use nf in simp)
  ultimately obtain s' where "?f = Some (Inr s')"
    by (cases ?f) (auto, metis sum.exhaust_sel Inl_Inr_False sumE)
  then show ?thesis unfolding g by simp
qed

lemma perturbed_clip_bound [simp]:
  "perturbed self (clip_bound self) = clip_bound self"
  by (auto simp: perturbed_eq clip_bound_eq)



lemma within_clip_classifier:
  "classifier self' = classifier self \<Longrightarrow> within_clip self' a = within_clip self a"
  by (simp add: within_clip_def)

lemma filter_length_mono:
  assumes "length xs = length ys" and "\<forall>j < length xs. P (xs ! j) \<longrightarrow> P (ys ! j)"
  shows "length (filter P xs) \<le> length (filter P ys)"
  using assms
proof (induction xs ys rule: list_induct2)
  case Nil
  then show ?case by simp
next
  case (Cons x xs y ys)
  from Cons.prems have 0: "P x \<longrightarrow> P y" by auto
  from Cons.prems have "\<forall>j < length xs. P (xs ! j) \<longrightarrow> P (ys ! j)" by auto
  with Cons.IH have "length (filter P xs) \<le> length (filter P ys)" by simp
  with 0 show ?case by auto
qed

lemma loop_body_search_space:
  assumes lb: "loop_body self batch ss af target active t = Inr (active', t')"
    and ok: "batch_ok self batch ss af t"
    and act: "\<forall>i \<in> set active. i < stop batch - start batch"
  shows "\<forall>i < stop batch - start batch. \<forall>j < nb_features self.
           heap t' ss ! i ! j = heap t ss ! i ! j \<or> heap t' ss ! i ! j = 0"
proof -
  from lb ok act obtain fi where
    S': "heap t' ss = new_search_space self (heap t ss) (slice_rows t' batch)"
    and ok': "batch_ok self batch ss af t'"
    by (rule loop_body_InrE)
  from ok have lS: "length (heap t ss) = stop batch - start batch"
    and rS: "\<forall>r \<in> set (heap t ss). length r = nb_features self"
    by (simp_all add: batch_ok_def)
  from ok' have lB': "length (slice_rows t' batch) = stop batch - start batch"
    and rB': "\<forall>r \<in> set (slice_rows t' batch). length r = nb_features self"
    by (simp_all add: batch_ok_def length_slice_rows)
  have l: "length (heap t ss) = length (slice_rows t' batch)" using lS lB' by simp
  show ?thesis
    unfolding S' using new_search_space_nth[OF l rS rB', of _ _ self] lB' by simp
qed

subsection \<open>Exact steps\<close>

lemma on_grid_iff: "on_grid p k v \<longleftrightarrow> v * 2 ^ k \<in> \<int> \<and> \<bar>v\<bar> * 2 ^ k \<le> 2 ^ p"
proof -
  have "real_of_int \<lfloor>v * 2 ^ k\<rfloor> = v * 2 ^ k \<longleftrightarrow> v * 2 ^ k \<in> \<int>"
    by (metis Ints_of_int of_int_floor_cancel Ints_cases)
  then show ?thesis by (simp add: on_grid_def)
qed

text \<open>The sum that an iteration forms needs one bit more than its arguments.\<close>

lemma on_grid_add:
  assumes "on_grid p k v" "on_grid p k w"
  shows "on_grid (Suc p) k (v + w)"
proof -
  have "\<bar>v + w\<bar> * 2 ^ k \<le> (\<bar>v\<bar> + \<bar>w\<bar>) * 2 ^ k"
    by (intro mult_right_mono) simp_all
  also have "\<dots> = \<bar>v\<bar> * 2 ^ k + \<bar>w\<bar> * 2 ^ k" by (simp add: distrib_right)
  also have "\<dots> \<le> 2 ^ Suc p" using assms by (simp add: on_grid_iff)
  finally show ?thesis using assms by (simp add: on_grid_iff distrib_right)
qed







subsection \<open>Target classes\<close>

lemma argmax_from_props:
  "argmax_from r b ks \<in> insert b (set ks) \<and> (\<forall>k \<in> insert b (set ks). r ! k \<le> r ! argmax_from r b ks)"
proof (induction ks arbitrary: b)
  case Nil
  then show ?case by simp
next
  case (Cons k ks)
  let ?b = "if r ! b < r ! k then k else b"
  from Cons.IH[of ?b] have m: "argmax_from r ?b ks \<in> insert ?b (set ks)"
    and le: "\<forall>j \<in> insert ?b (set ks). r ! j \<le> r ! argmax_from r ?b ks" by blast+
  from le have "r ! ?b \<le> r ! argmax_from r ?b ks" by blast
  then have "r ! b \<le> r ! argmax_from r ?b ks" "r ! k \<le> r ! argmax_from r ?b ks"
    by (auto split: if_splits)
  with m le show ?case by (auto split: if_splits)
qed

lemma argmax_to_categorical:
  assumes "c < nb"
  shows "argmax_from (to_categorical c nb) 0 [1..<length (to_categorical c nb)] = c"
proof -
  let ?r = "to_categorical c nb"
  let ?m = "argmax_from ?r 0 [1..<length ?r]"
  have l: "length ?r = nb" by (simp add: to_categorical_def)
  have s0: "insert 0 (set [1..<nb]) = {..<nb}" using assms by auto
  have "?m \<in> {..<nb} \<and> (\<forall>k \<in> {..<nb}. ?r ! k \<le> ?r ! ?m)"
    unfolding l s0[symmetric] by (rule argmax_from_props)
  then have m: "?m < nb" and "?r ! c \<le> ?r ! ?m" using assms by simp_all
  then show ?thesis using assms by (simp add: to_categorical_def split: if_splits)
qed

lemma set_other_classes: "set (other_classes nb l) = {..<nb} - {l}"
  by (auto simp: other_classes_def)

lemma distinct_other_classes: "distinct (other_classes nb l)"
  by (simp add: other_classes_def)

lemma random_choice_mem: "xs \<noteq> [] \<Longrightarrow> random_choice r xs \<in> set xs"
  by (simp add: random_choice_def)

lemma random_targets_Inr:
  assumes "random_targets rnd labels nb = Inr y" and "i < length labels"
  shows "length y = length labels"
    and "y ! i = to_categorical (random_choice (rnd i) (other_classes nb (labels ! i))) nb"
    and "other_classes nb (labels ! i) \<noteq> []"
proof -
  from assms(2) have ne: "labels \<noteq> []" by auto
  from assms(1) have y: "y = map (\<lambda>(i, l). to_categorical (random_choice (rnd i) (other_classes nb l)) nb)
                  (zip [0..<length labels] labels)"
    and all: "\<not> (labels \<noteq> [] \<and> (\<exists>l \<in> set labels. other_classes nb l = []))"
    by (auto simp: random_targets_def split: if_splits)
  show "length y = length labels" unfolding y by simp
  show "y ! i = to_categorical (random_choice (rnd i) (other_classes nb (labels ! i))) nb"
    unfolding y using assms(2) by simp
  from all ne assms(2) show "other_classes nb (labels ! i) \<noteq> []" by auto
qed

subsection \<open>The concrete inputs\<close>

lemma wf_ex_classifier: "wf_classifier 4 ex_classifier"
  by (simp add: wf_classifier_def ex_classifier_def)

lemma ex_saliency_map:
  "saliency_map (ex_attack (3/10) 1) [[0, 0, 0, 0]] [1] [[0, 1, 1, 1]] = Inr [(2, 1)]"
  by (simp add: saliency_map_def ex_attack_def ex_classifier_def masked_grads_def Let_def
      put_mask_def elementwise_def neg_inf_times_def argpartition_last2_def less_ext_def upt_rec)

lemmas ex_eval = saliency_map_def masked_grads_def put_mask_def elementwise_def neg_inf_times_def
  argpartition_last2_def less_ext_def new_batch_def new_search_space_def still_active_def
  perturb_row_def perturbed_eq clip_bound_eq take_rows_def np_where_def np_argmax_def row_sums_def
  ex_attack_def ex_classifier_def ex_attack2_def ex_classifier2_def Let_def upt_rec
  initial_search_space_def zeros_like_def

lemma ex_generate:
  assumes sp: "set_params self ex_kwargs = Inr self" and nf: "nb_features self = 4"
    and bs: "batch_size self = 128" and preds: "np_argmax (predict (classifier self) [row]) = [0]"
  shows "generate fuel rnd self ex_x ex_kwargs (ex_store [row]) =
     (case while_active fuel self ex_batch 2 3 [1] [0] (ex_loop_store self row) of
        None \<Rightarrow> None
      | Some (Inl e) \<Rightarrow> Some (Inl e)
      | Some (Inr t) \<Rightarrow>
          Some (Inr (\<lparr>buf = 1, shape = [1, 2, 2]\<rparr>, self, write_back ex_batch t)))"
proof -
  let ?s0 = "\<lparr>heap = (\<lambda>_. [])(0 := [row], 1 := [row]), nxt = 2\<rparr>"
  have self': "self\<lparr>nb_features := np_product (tl (shape ex_x))\<rparr> = self"
    using nf by (simp add: ex_x_def np_product_def)
  have rt: "resolve_targets rnd self ex_kwargs [0] = Inr [1]"
    by (simp add: resolve_targets_def ex_kwargs_def np_argmax_def)
  have al: "alloc (heap (ex_store [row]) (buf ex_x)) (ex_store [row]) = (1, ?s0)"
    by (simp add: alloc_def ex_store_def ex_x_def)
  have "\<lceil>(1::real) / 128\<rceil> = 1" by (rule ceiling_unique) simp_all
  then have nb: "nat \<lceil>real (length (heap ?s0 1)) / real_of_int (batch_size self)\<rceil> = 1"
    by (simp add: bs)
  have bo: "batch_of self ?s0 1 0 = ex_batch"
    by (simp add: batch_of_def basic_slice_def ex_batch_def bs)
  have x: "1 < nxt ?s0" by simp
  have n: "nxt ?s0 = 2" "Suc 2 = 3" by simp_all
  have tg: "slice_list [1::nat] (0 * nat (batch_size self)) ((0 + 1) * nat (batch_size self)) = [1]"
    by (simp add: slice_list_def bs)
  have pr: "slice_list [0::nat] (0 * nat (batch_size self)) ((0 + 1) * nat (batch_size self)) = [0]"
    by (simp add: slice_list_def bs)
  have ia: "initial_active [0] [1] = [0]"
    by (simp add: initial_active_def np_where_def)
  have pb: "process_batch fuel self 1 [0] [1] 0 ?s0 =
     (case while_active fuel self ex_batch 2 3 [1] [0] (ex_loop_store self row) of
        None \<Rightarrow> None | Some (Inl e) \<Rightarrow> Some (Inl e)
      | Some (Inr s1) \<Rightarrow> Some (Inr (write_back ex_batch s1)))"
    unfolding process_batch_eq[OF x] bo n tg pr ia ex_loop_store_def ..
  have nz: "nb_features self \<noteq> 0" using nf by simp
  note pb' = pb[unfolded One_nat_def]
  note rt' = rt[unfolded One_nat_def]
  show ?thesis
    unfolding generate_def sp sum.case Let_def self' al prod.case
    using nz nb by (simp add: preds rt' pb' ex_x_def ex_store_def split: option.splits sum.splits)
qed

lemma ex_loop_store_facts:
  assumes "nb_features self = 4" "length row = 4" and bs: "batch_size self = 128"
  shows "batch_ok self ex_batch 2 3 (ex_loop_store self row)"
    and "slice_rows (ex_loop_store self row) ex_batch = [row]"
    and "heap (ex_loop_store self row) 2 = initial_search_space self [row]"
    and "heap (ex_loop_store self row) 3 = [map (\<lambda>_. 0) row]"
    and "length (heap (ex_loop_store self row) 1) = 1"
proof -
  let ?s0 = "\<lparr>heap = (\<lambda>_. [])(0 := [row], 1 := [row]), nxt = 2\<rparr>"
  have bo: "batch_of self ?s0 1 0 = ex_batch"
    by (simp add: batch_of_def basic_slice_def ex_batch_def bs)
  have x: "1 < nxt ?s0" by simp
  have r: "\<forall>r \<in> set (heap ?s0 1). length r = nb_features self"
    using assms by simp
  have sl: "slice_rows ?s0 ex_batch = [row]" by (simp add: slice_rows_def ex_batch_def)
  have n: "nxt ?s0 = 2" "Suc 2 = 3" by simp_all
  show "batch_ok self ex_batch 2 3 (ex_loop_store self row)"
    using batch_ok_start(1)[OF x r, of 0] unfolding bo n ex_loop_store_def .
  show "slice_rows (ex_loop_store self row) ex_batch = [row]"
    using batch_ok_start(2)[OF x r, of 0] unfolding bo sl ex_loop_store_def .
  have h: "heap (batch_start self ex_batch ?s0) =
      (heap ?s0)(2 := initial_search_space self [row], 3 := zeros_like [row])"
    unfolding batch_start_def sl n by simp
  show "heap (ex_loop_store self row) 2 = initial_search_space self [row]"
    unfolding ex_loop_store_def h by simp
  show "heap (ex_loop_store self row) 3 = [map (\<lambda>_. 0) row]"
    unfolding ex_loop_store_def h by (simp add: zeros_like_def)
  show "length (heap (ex_loop_store self row) 1) = 1"
    unfolding ex_loop_store_def h by simp
qed

lemma ex_generate_None:
  assumes sp: "set_params self ex_kwargs = Inr self" and nf: "nb_features self = 4"
    and bs: "batch_size self = 128" and preds: "np_argmax (predict (classifier self) [row]) = [0]"
    and row: "length row = 4"
    and run: "run_rows fuel self [1] [map (\<lambda>_. 0) row] [0] [row] (initial_search_space self [row]) = None"
  shows "generate fuel rnd self ex_x ex_kwargs (ex_store [row]) = None"
proof -
  note f = ex_loop_store_facts[OF nf row bs]
  have act: "\<forall>i \<in> set [0::nat]. i < stop ex_batch - start ex_batch" by (simp add: ex_batch_def)
  have "while_active fuel self ex_batch 2 3 [1] [0] (ex_loop_store self row) = None"
    unfolding while_active_None_iff[OF f(1) act] f(2,3,4) by (rule run)
  then show ?thesis unfolding ex_generate[OF sp nf bs preds] by simp
qed

lemma ex_generate_result:
  assumes sp: "set_params self ex_kwargs = Inr self" and nf: "nb_features self = 4"
    and bs: "batch_size self = 128" and preds: "np_argmax (predict (classifier self) [row]) = [0]"
    and row: "length row = 4"
    and run: "run_rows fuel self [1] [map (\<lambda>_. 0) row] [0] [row] (initial_search_space self [row])
        = Some (Inr (B, S))"
  shows "\<exists>t. generate fuel rnd self ex_x ex_kwargs (ex_store [row]) =
           Some (Inr (\<lparr>buf = 1, shape = [1, 2, 2]\<rparr>, self, t)) \<and> heap t 1 = B \<and> heap t 2 = S \<and>
           heap t 0 = [row] \<and> heap t 3 = [map (\<lambda>_. 0) row]"
proof -
  note f = ex_loop_store_facts[OF nf row bs]
  have act: "\<forall>i \<in> set [0::nat]. i < stop ex_batch - start ex_batch" by (simp add: ex_batch_def)
  let ?w = "while_active fuel self ex_batch 2 3 [1] [0] (ex_loop_store self row)"
  from while_active_rows[OF f(1) act, of fuel "[1]"] run
  have "map_option (map_sum id (\<lambda>s'. (slice_rows s' ex_batch, heap s' 2))) ?w = Some (Inr (B, S))"
    unfolding f(2,3,4) by simp
  then obtain t where w: "?w = Some (Inr t)" and B: "slice_rows t ex_batch = B" and S: "heap t 2 = S"
    by (cases ?w) (auto simp: map_sum_def split: sum.splits)
  have d: "distinct [0::nat]" by simp
  have I0: "length (heap (ex_loop_store self row) 1) = 1 \<and>
      heap (ex_loop_store self row) 3 = [map (\<lambda>_. 0) row]"
    using f(4,5) by simp
  have "batch_ok self ex_batch 2 3 t \<and> (length (heap t 1) = 1 \<and> heap t 3 = [map (\<lambda>_. 0) row])"
    using w f(1) act d I0
  proof (rule while_active_rule)
    fix active s active' s1
    assume ok: "batch_ok self ex_batch 2 3 s" and a: "\<forall>i \<in> set active. i < stop ex_batch - start ex_batch"
      and l: "length (heap s 1) = 1 \<and> heap s 3 = [map (\<lambda>_. 0) row]"
      and lb: "loop_body self ex_batch 2 3 [1] active s = Inr (active', s1)"
    from lb ok a obtain fi where "length (heap s1 (base ex_batch)) = length (heap s (base ex_batch))"
      "heap s1 3 = heap s 3"
      by (rule loop_body_InrE)
    with l show "length (heap s1 1) = 1 \<and> heap s1 3 = [map (\<lambda>_. 0) row]" by (simp add: ex_batch_def)
  qed
  then have ok: "batch_ok self ex_batch 2 3 t" and l: "length (heap t 1) = 1"
    and h3: "heap t 3 = [map (\<lambda>_. 0) row]" by simp_all
  from l B have h1: "heap t 1 = B" by (simp add: slice_rows_def ex_batch_def)
  from while_active_frame[OF w] have "heap t 0 = heap (ex_loop_store self row) 0"
    by (simp add: ex_batch_def ex_loop_store_def batch_start_def)
  then have h0: "heap t 0 = [row]" by (simp add: ex_loop_store_def batch_start_def)
  from write_back_id[OF ok] w h1 S h0 h3 show ?thesis
    unfolding ex_generate[OF sp nf bs preds] by simp
qed

lemma ex_set_params: "0 < g \<Longrightarrow> g \<le> 1 \<Longrightarrow> set_params (ex_attack th g) ex_kwargs = Inr (ex_attack th g)"
  by (simp add: set_params_def Attack_set_params_def ex_attack_def ex_kwargs_def Let_def)

lemma ex_set_params2: "0 < g \<Longrightarrow> g \<le> 1 \<Longrightarrow> set_params (ex_attack2 th g) ex_kwargs = Inr (ex_attack2 th g)"
  by (simp add: set_params_def Attack_set_params_def ex_attack2_def ex_kwargs_def Let_def)

lemma ex_preds: "np_argmax (predict (classifier (ex_attack th g)) [row]) = [0]"
  by (simp add: np_argmax_def ex_attack_def ex_classifier_def)

lemma ex_preds2: "row ! 0 = 0 \<Longrightarrow> np_argmax (predict (classifier (ex_attack2 th g)) [row]) = [0]"
  by (simp add: np_argmax_def ex_attack2_def ex_classifier2_def)



lemma ex_wf_input: "length row = 4 \<Longrightarrow> wf_input (ex_store [row]) ex_x"
  by (simp add: wf_input_def ex_store_def ex_x_def np_product_def)

lemma wf_ex_classifier2: "wf_classifier 4 ex_classifier2"
  by (simp add: wf_classifier_def ex_classifier2_def)

lemma ex_total_steps: "total_steps (ex_attack (3/10) g) [[0, 0, 0, 0]] = 16"
proof -
  have "\<lceil>(10::real) / 3\<rceil> = 4" by (rule ceiling_unique) simp_all
  then show ?thesis
    by (simp add: total_steps_def row_steps_def steps_to_bound_def eligible_value_def clip_bound_eq
        ex_attack_def ex_classifier_def)
qed

lemma ex_generate_returns:
  "\<exists>t. generate 17 ex_rnd (ex_attack (3/10) 1) ex_x ex_kwargs (ex_store [[0, 0, 0, 0]]) =
     Some (Inr (\<lparr>buf = 1, shape = [1, 2, 2]\<rparr>, ex_attack (3/10) 1, t))"
proof -
  let ?self = "ex_attack (3/10) 1"
  have sp: "set_params ?self ex_kwargs = Inr ?self" by (simp add: ex_set_params)
  have a: "Attack_set_params ?self ex_kwargs = ?self" using set_params_Inr(1)[OF sp] by simp
  have wfx: "wf_input (ex_store [[0, 0, 0, 0]]) ex_x" by (simp add: ex_wf_input)
  have np: "np_product (tl (shape ex_x)) = 4" by (simp add: ex_x_def np_product_def)
  have wfc: "wf_classifier (np_product (tl (shape ex_x))) (classifier ?self)"
    unfolding np using wf_ex_classifier by (simp add: ex_attack_def)
  have th: "theta (Attack_set_params ?self ex_kwargs) \<noteq> 0" unfolding a by (simp add: ex_attack_def)
  have X: "heap (ex_store [[0, 0, 0, 0]]) (buf ex_x) = [[0, 0, 0, 0]]"
    by (simp add: ex_store_def ex_x_def)
  have tot: "total_steps (Attack_set_params ?self ex_kwargs) (heap (ex_store [[0, 0, 0, 0]]) (buf ex_x)) < 17"
    unfolding a X ex_total_steps by simp
  have nf: "2 \<le> np_product (tl (shape ex_x))" unfolding np by simp
  have self': "?self\<lparr>nb_features := np_product (tl (shape ex_x))\<rparr> = ?self"
    unfolding np by (simp add: ex_attack_def)
  have rt: "resolve_targets ex_rnd (?self\<lparr>nb_features := np_product (tl (shape ex_x))\<rparr>) ex_kwargs
      (np_argmax (predict (classifier ?self) (heap (ex_store [[0, 0, 0, 0]]) (buf ex_x)))) = Inr [1]"
    by (simp add: resolve_targets_def ex_kwargs_def np_argmax_def)
  from generate_returns[OF wfx wfc th tot sp nf rt] show ?thesis
    unfolding self' by (simp add: ex_store_def ex_x_def)
qed

lemma ex_run_once2:
  "run_rows 1 (ex_attack2 (3/10) g) [1] [[0, 0, 0, 0]] [0] [[0, 0, 0, 0]]
     (initial_search_space (ex_attack2 (3/10) g) [[0, 0, 0, 0]])
   = Some (Inr ([[3/10, 3/10, 0, 0]], [[1, 1, 1, 1]]))"
  by (simp add: ex_eval)

lemma ex_final_arrays2:
  assumes "0 < g" "g \<le> 1"
  shows "final_array (generate 1 ex_rnd (ex_attack2 (3/10) g) ex_x ex_kwargs (ex_store [[0, 0, 0, 0]])) 1
           = Some (Inr [[3/10, 3/10, 0, 0]])"
    and "final_array (generate 1 ex_rnd (ex_attack2 (3/10) g) ex_x ex_kwargs (ex_store [[0, 0, 0, 0]])) 3
           = Some (Inr [[0, 0, 0, 0]])"
proof -
  let ?self = "ex_attack2 (3/10) g"
  have sp: "set_params ?self ex_kwargs = Inr ?self" using assms by (simp add: ex_set_params2)
  have nf: "nb_features ?self = 4" and bs: "batch_size ?self = 128" by (simp_all add: ex_attack2_def)
  have p: "np_argmax (predict (classifier ?self) [[0, 0, 0, 0]]) = [0]" by (simp add: ex_preds2)
  have r: "run_rows 1 ?self [1] [map (\<lambda>_. 0) [0, 0, 0, 0]] [0] [[0, 0, 0, 0]]
      (initial_search_space ?self [[0, 0, 0, 0]]) = Some (Inr ([[3/10, 3/10, 0, 0]], [[1, 1, 1, 1]]))"
    using ex_run_once2 by simp
  from ex_generate_result[OF sp nf bs p _ r, of ex_rnd] obtain t where
    "generate 1 ex_rnd ?self ex_x ex_kwargs (ex_store [[0, 0, 0, 0]]) =
       Some (Inr (\<lparr>buf = 1, shape = [1, 2, 2]\<rparr>, ?self, t))"
    "heap t 1 = [[3/10, 3/10, 0, 0]]" "heap t 3 = [map (\<lambda>_. 0) [0, 0, 0, 0]]"
    by auto
  then show "final_array (generate 1 ex_rnd ?self ex_x ex_kwargs (ex_store [[0, 0, 0, 0]])) 1
           = Some (Inr [[3/10, 3/10, 0, 0]])"
    "final_array (generate 1 ex_rnd ?self ex_x ex_kwargs (ex_store [[0, 0, 0, 0]])) 3
           = Some (Inr [[0, 0, 0, 0]])"
    by (simp_all add: final_array_def)
qed

lemma ex_saliency_map2:
  "saliency_map (ex_attack2 (3/10) g) [[0, 0, 0, 0]] [1] [[1, 1, 1, 1]] = Inr [(1, 0)]"
  by (simp add: ex_eval)

lemma ex_loop_body:
  assumes "0 < th"
  shows "\<exists>a' t'. loop_body (ex_attack th g) ex_batch 2 3 [1] [0]
            (ex_loop_store (ex_attack th g) [0, 0, 0, 0]) = Inr (a', t')"
proof -
  let ?self = "ex_attack th g"
  have nf: "nb_features ?self = 4" and bs: "batch_size ?self = 128" by (simp_all add: ex_attack_def)
  note f = ex_loop_store_facts[OF nf _ bs, of "[0, 0, 0, 0]", simplified]
  have act: "\<forall>i \<in> set [0::nat]. i < stop ex_batch - start ex_batch" by (simp add: ex_batch_def)
  have sal: "saliency_map ?self (take_rows (slice_rows (ex_loop_store ?self [0, 0, 0, 0]) ex_batch) [0])
      (take_rows [1] [0]) (take_rows (heap (ex_loop_store ?self [0, 0, 0, 0]) 2) [0]) = Inr [(1, 0)]"
    unfolding f using assms by (simp add: ex_eval)
  from loop_body_Inr[OF f(1) act sal] show ?thesis by blast
qed


lemma ex_run_quarter_1:
  "run_rows 1 (ex_attack (1/4) (1/4)) [1] [[0, 0, 0, 0]] [0] [[0, 0, 0, 0]]
     (initial_search_space (ex_attack (1/4) (1/4)) [[0, 0, 0, 0]]) = None"
  by (simp add: ex_eval)

lemma ex_run_quarter_8:
  "run_rows 8 (ex_attack (1/4) (1/4)) [1] [[0, 0, 0, 0]] [0] [[0, 0, 0, 0]]
     (initial_search_space (ex_attack (1/4) (1/4)) [[0, 0, 0, 0]])
   = Some (Inr ([[1, 1, 1, 1]], [[0, 0, 0, 0]]))"
  by (simp add: ex_eval eval_nat_numeral)



lemma ex_after_iteration:
  "after_iteration ex_batch 3
     (loop_body (ex_attack (1/4) (1/4)) ex_batch 2 3 [1] [0]
        (ex_loop_store (ex_attack (1/4) (1/4)) [0, 0, 0, 0]))
   = Inr ([0], [[1/4, 1/4, 0, 0]], [[0, 0, 0, 0]])"
proof -
  let ?self = "ex_attack (1/4) (1/4)"
  let ?t = "ex_loop_store ?self [0, 0, 0, 0]"
  have nf: "nb_features ?self = 4" and bs: "batch_size ?self = 128" by (simp_all add: ex_attack_def)
  note f = ex_loop_store_facts[OF nf _ bs, of "[0, 0, 0, 0]", simplified]
  have act: "\<forall>i \<in> set [0::nat]. i < stop ex_batch - start ex_batch" by (simp add: ex_batch_def)
  have sal: "saliency_map ?self (take_rows (slice_rows ?t ex_batch) [0])
      (take_rows [1] [0]) (take_rows (heap ?t 2) [0]) = Inr [(1, 0)]"
    unfolding f by (simp add: ex_eval)
  have B: "new_batch ?self (slice_rows ?t ex_batch) [0] [(1, 0)] = [[1/4, 1/4, 0, 0]]"
    unfolding f by (simp add: ex_eval)
  have S: "new_search_space ?self (heap ?t 2) [[1/4, 1/4, 0, 0]] = [[1, 1, 1, 1]]"
    unfolding f by (simp add: ex_eval)
  have A: "still_active ?self (np_argmax (predict (classifier ?self) [[1/4, 1/4, 0, 0]])) [1]
      (heap ?t 3) [[1, 1, 1, 1]] = [0]"
    unfolding f by (simp add: ex_eval)
  from loop_body_Inr[OF f(1) act sal] obtain s' where
    "loop_body ?self ex_batch 2 3 [1] [0] ?t = Inr ([0], s')"
    "slice_rows s' ex_batch = [[1/4, 1/4, 0, 0]]" "heap s' 3 = heap ?t 3"
    unfolding B S A by blast
  then show ?thesis unfolding f by (simp add: after_iteration_def)
qed

section \<open>The claims\<close>

text \<open>
  C1. The code does not record the selected features. For one sample with features
  \<open>[0, 0, 0, 0]\<close>, \<open>theta = 0.3\<close>, \<open>gamma = 1\<close> and a classifier that predicts the target as soon
  as feature 0 is positive, the saliency map selects the features 1 and 0, the loop runs one
  iteration and both features are perturbed (array 1 is \<open>x_adv\<close>), but \<open>all_feat\<close> (array 3)
  still holds 0 for both: the assignments of lines 96 and 97 write into the copy that
  \<open>all_feat[active_indices]\<close> makes.
\<close>

theorem used_features_not_recorded:
  "saliency_map (ex_attack2 (3/10) 1) [[0, 0, 0, 0]] [1] [[1, 1, 1, 1]] = Inr [(1, 0)] \<and>
   final_array (generate 1 ex_rnd (ex_attack2 (3/10) 1) ex_x ex_kwargs (ex_store [[0, 0, 0, 0]])) 1
     = Some (Inr [[3/10, 3/10, 0, 0]]) \<and>
   final_array (generate 1 ex_rnd (ex_attack2 (3/10) 1) ex_x ex_kwargs (ex_store [[0, 0, 0, 0]])) 3
     = Some (Inr [[0, 0, 0, 0]])"
  using ex_saliency_map2[of 1] ex_final_arrays2[of 1] by simp

text \<open>
  C2. The code does not enforce the budget. For one sample with features \<open>[0, 0, 0, 0]\<close>,
  \<open>F = 4\<close>, \<open>gamma = 0.25\<close>, \<open>theta = 0.25\<close> and a classifier that never predicts the target,
  the first iteration modifies two of the four features (fraction \<open>0.5 > gamma\<close>), but
  \<open>all_feat\<close> (array 3), which line 121 compares with \<open>gamma\<close>, is still zero, and the sample
  is still in the active set: the loop has not stopped after one iteration. It runs for 8
  iterations, until the search space of the sample is empty, and \<open>generate\<close> returns with all
  four features modified (array 1 is \<open>x_adv\<close>) and \<open>all_feat\<close> still zero.
\<close>

theorem budget_not_enforced:
  "gamma (ex_attack (1/4) (1/4)) = 1/4 \<and> nb_features (ex_attack (1/4) (1/4)) = 4 \<and>
   after_iteration ex_batch 3
     (loop_body (ex_attack (1/4) (1/4)) ex_batch 2 3 [1] [0]
        (ex_loop_store (ex_attack (1/4) (1/4)) [0, 0, 0, 0]))
     = Inr ([0], [[1/4, 1/4, 0, 0]], [[0, 0, 0, 0]]) \<and>
   generate 1 ex_rnd (ex_attack (1/4) (1/4)) ex_x ex_kwargs (ex_store [[0, 0, 0, 0]]) = None \<and>
   final_array (generate 8 ex_rnd (ex_attack (1/4) (1/4)) ex_x ex_kwargs (ex_store [[0, 0, 0, 0]])) 1
     = Some (Inr [[1, 1, 1, 1]]) \<and>
   final_array (generate 8 ex_rnd (ex_attack (1/4) (1/4)) ex_x ex_kwargs (ex_store [[0, 0, 0, 0]])) 3
     = Some (Inr [[0, 0, 0, 0]])"
proof -
  let ?self = "ex_attack (1/4) (1/4)"
  have sp: "set_params ?self ex_kwargs = Inr ?self" by (simp add: ex_set_params)
  have nf: "nb_features ?self = 4" and bs: "batch_size ?self = 128" and g: "gamma ?self = 1/4"
    by (simp_all add: ex_attack_def)
  have r1: "run_rows 1 ?self [1] [map (\<lambda>_. 0) [0, 0, 0, 0]] [0] [[0, 0, 0, 0]]
      (initial_search_space ?self [[0, 0, 0, 0]]) = None"
    using ex_run_quarter_1 by simp
  have g1: "generate 1 ex_rnd ?self ex_x ex_kwargs (ex_store [[0, 0, 0, 0]]) = None"
    by (rule ex_generate_None[OF sp nf bs ex_preds _ r1]) simp
  have r8: "run_rows 8 ?self [1] [map (\<lambda>_. 0) [0, 0, 0, 0]] [0] [[0, 0, 0, 0]]
      (initial_search_space ?self [[0, 0, 0, 0]]) = Some (Inr ([[1, 1, 1, 1]], [[0, 0, 0, 0]]))"
    using ex_run_quarter_8 by simp
  from ex_generate_result[OF sp nf bs ex_preds _ r8, of ex_rnd] obtain t where
    "generate 8 ex_rnd ?self ex_x ex_kwargs (ex_store [[0, 0, 0, 0]]) =
       Some (Inr (\<lparr>buf = 1, shape = [1, 2, 2]\<rparr>, ?self, t))"
    "heap t 1 = [[1, 1, 1, 1]]" "heap t 3 = [map (\<lambda>_. 0) [0, 0, 0, 0]]"
    by auto
  then have "final_array (generate 8 ex_rnd ?self ex_x ex_kwargs (ex_store [[0, 0, 0, 0]])) 1
       = Some (Inr [[1, 1, 1, 1]])"
    "final_array (generate 8 ex_rnd ?self ex_x ex_kwargs (ex_store [[0, 0, 0, 0]])) 3
       = Some (Inr [[0, 0, 0, 0]])"
    by (simp_all add: final_array_def)
  with g nf ex_after_iteration g1 show ?thesis by simp
qed







text \<open>
  C5. \<open>_saliency_map\<close> sets the gradient of every ineligible feature (search space 0) to
  \<open>-infinity\<close> when \<open>theta > 0\<close> and to \<open>+infinity\<close> otherwise, and leaves the gradients of
  the eligible features as the classifier returned them. For each sample it returns two
  different feature indices \<open>a\<close> and \<open>b\<close>: when \<open>theta > 0\<close>, \<open>b\<close> has the highest masked
  gradient and \<open>a\<close> the highest among the others; otherwise \<open>b\<close> has the lowest and \<open>a\<close> the
  lowest among the others. While at least two eligible features remain, both are eligible.
\<close>

theorem saliency_map_top2:
  assumes "saliency_map self x target search_space = Inr feat_ind"
    and "wf_classifier (nb_features self) (classifier self)"
    and "length search_space = length x"
    and "\<forall>r \<in> set search_space. length r = nb_features self"
    and "k < length x"
  defines "grads \<equiv> class_gradient (classifier self) x target ! k"
    and "m \<equiv> masked_grads self (class_gradient (classifier self) x target) search_space ! k"
    and "a \<equiv> fst (feat_ind ! k)" and "b \<equiv> snd (feat_ind ! k)"
  shows "(\<forall>j < nb_features self. m ! j =
            (if search_space ! k ! j = 0 then (if theta self > 0 then NegInf else PosInf)
             else Fin (grads ! j))) \<and>
         a < nb_features self \<and> b < nb_features self \<and> a \<noteq> b \<and>
         (if theta self > 0
          then (\<forall>j < nb_features self. m ! j \<le> m ! b) \<and>
               (\<forall>j < nb_features self. j \<noteq> b \<longrightarrow> m ! j \<le> m ! a)
          else (\<forall>j < nb_features self. m ! b \<le> m ! j) \<and>
               (\<forall>j < nb_features self. j \<noteq> b \<longrightarrow> m ! a \<le> m ! j)) \<and>
         ((\<exists>i < nb_features self. \<exists>j < nb_features self.
              i \<noteq> j \<and> search_space ! k ! i \<noteq> 0 \<and> search_space ! k ! j \<noteq> 0)
            \<longrightarrow> search_space ! k ! a \<noteq> 0 \<and> search_space ! k ! b \<noteq> 0)"
proof -
  let ?g = "class_gradient (classifier self) x target"
  from assms(2,3) have g: "length ?g = length search_space"
      "\<forall>r \<in> set ?g. length r = nb_features self"
    by (simp_all add: wf_classifier_def)
  have 1: "\<forall>j < nb_features self. m ! j =
            (if search_space ! k ! j = 0 then (if theta self > 0 then NegInf else PosInf)
             else Fin (grads ! j))"
    unfolding m_def grads_def using masked_grads_nth[OF g assms(4)] assms(3,5) by simp
  note 2 = saliency_map_row[OF assms(1-5), folded m_def a_def b_def]
  note 3 = saliency_map_eligible[OF assms(1-5), folded a_def b_def]
  from 3 have "(\<exists>i < nb_features self. \<exists>j < nb_features self.
              i \<noteq> j \<and> search_space ! k ! i \<noteq> 0 \<and> search_space ! k ! j \<noteq> 0)
            \<longrightarrow> search_space ! k ! a \<noteq> 0 \<and> search_space ! k ! b \<noteq> 0"
    by blast
  with 1 2 show ?thesis by blast
qed

theorem saliency_map_top2_witness:
  "saliency_map (ex_attack (3/10) 1) [[0, 0, 0, 0]] [1] [[0, 1, 1, 1]] = Inr [(2, 1)] \<and>
   wf_classifier 4 ex_classifier \<and>
   [[0, 1, 1, 1::real]] ! 0 ! fst ([(2::nat, 1::nat)] ! 0) \<noteq> 0 \<and>
   [[0, 1, 1, 1::real]] ! 0 ! snd ([(2::nat, 1::nat)] ! 0) \<noteq> 0"
proof -
  have nf: "nb_features (ex_attack (3/10) 1) = 4"
    by (simp add: ex_attack_def)
  have wf: "wf_classifier (nb_features (ex_attack (3/10) 1)) (classifier (ex_attack (3/10) 1))"
    using wf_ex_classifier by (simp add: ex_attack_def)
  have l: "length [[0, 1, 1, 1::real]] = length [[0, 0, 0, 0::real]]"
    by simp
  have r: "\<forall>r \<in> set [[0, 1, 1, 1::real]]. length r = nb_features (ex_attack (3/10) 1)"
    by (simp add: ex_attack_def)
  have k: "0 < length [[0, 0, 0, 0::real]]"
    by simp
  have two: "\<exists>i < 4. \<exists>j < 4. i \<noteq> j \<and> [[0, 1, 1, 1::real]] ! 0 ! i \<noteq> 0 \<and>
      [[0, 1, 1, 1::real]] ! 0 ! j \<noteq> 0"
    by (rule exI[of _ 1], simp, rule exI[of _ 2], simp)
  have "[[0, 1, 1, 1::real]] ! 0 ! fst ([(2::nat, 1::nat)] ! 0) \<noteq> 0 \<and>
        [[0, 1, 1, 1::real]] ! 0 ! snd ([(2::nat, 1::nat)] ! 0) \<noteq> 0"
    using saliency_map_top2[OF ex_saliency_map wf l r k] two unfolding nf by blast
  with ex_saliency_map wf_ex_classifier show ?thesis by blast
qed

text \<open>
  C6. When the feature values of the input lie within \<open>[clip_min, clip_max]\<close>, so do all
  feature values of the array that \<open>generate\<close> returns. In one iteration, each of the two
  selected features of an active sample receives its value plus \<open>theta\<close>, cut at \<open>clip_max\<close>
  when \<open>theta > 0\<close> and at \<open>clip_min\<close> otherwise; the other features of the sample and
  the samples that are not active keep their values.
\<close>

theorem generate_within_clip_values:
  "(generate fuel rnd self x kw s = Some (Inr (r, self', s')) \<longrightarrow> wf_input s x \<longrightarrow>
      wf_classifier (np_product (tl (shape x))) (classifier self) \<longrightarrow>
      within_clip self (heap s (buf x)) \<longrightarrow>
      within_clip self (heap s' (buf r))) \<and>
   (loop_body self batch search_space all_feat target active t = Inr (active', t') \<longrightarrow>
      batch_ok self batch search_space all_feat t \<longrightarrow>
      (\<forall>i \<in> set active. i < stop batch - start batch) \<longrightarrow> distinct active \<longrightarrow>
      wf_classifier (nb_features self) (classifier self) \<longrightarrow>
      (\<exists>feat_ind.
         saliency_map self (take_rows (slice_rows t batch) active) (take_rows target active)
           (take_rows (heap t search_space) active) = Inr feat_ind \<and>
         (\<forall>k < length active. \<forall>j < nb_features self.
            slice_rows t' batch ! (active ! k) ! j =
              (if j = fst (feat_ind ! k) \<or> j = snd (feat_ind ! k)
               then (if theta self > 0
                     then min (snd (clip_values (classifier self)))
                            (slice_rows t batch ! (active ! k) ! j + theta self)
                     else max (fst (clip_values (classifier self)))
                            (slice_rows t batch ! (active ! k) ! j + theta self))
               else slice_rows t batch ! (active ! k) ! j)) \<and>
         (\<forall>i < stop batch - start batch. i \<notin> set active \<longrightarrow>
            slice_rows t' batch ! i = slice_rows t batch ! i)))"
proof (intro conjI impI)
  assume gen: "generate fuel rnd self x kw s = Some (Inr (r, self', s'))"
    and wfx: "wf_input s x"
    and wfc: "wf_classifier (np_product (tl (shape x))) (classifier self)"
    and w: "within_clip self (heap s (buf x))"
  from gen obtain self0 where "set_params self kw = Inr self0"
    "self' = self0\<lparr>nb_features := np_product (tl (shape x))\<rparr>"
    by (rule generate_Inr)
  with set_params_Inr(2)[of self kw self0] have "classifier self' = classifier self" by simp
  from within_clip_classifier[OF this] generate_within[OF gen wfx wfc w]
  show "within_clip self (heap s' (buf r))" by simp
next
  assume lb: "loop_body self batch search_space all_feat target active t = Inr (active', t')"
    and ok: "batch_ok self batch search_space all_feat t"
    and act: "\<forall>i \<in> set active. i < stop batch - start batch"
    and dist: "distinct active"
    and wf: "wf_classifier (nb_features self) (classifier self)"
  from lb ok act dist wf obtain fi where
    "saliency_map self (take_rows (slice_rows t batch) active) (take_rows target active)
       (take_rows (heap t search_space) active) = Inr fi"
    "\<forall>i < stop batch - start batch. i \<notin> set active \<longrightarrow> slice_rows t' batch ! i = slice_rows t batch ! i"
    "\<forall>k < length active. \<forall>j < nb_features self. slice_rows t' batch ! (active ! k) ! j =
        (if j = fst (fi ! k) \<or> j = snd (fi ! k) then perturbed self (slice_rows t batch ! (active ! k) ! j)
         else slice_rows t batch ! (active ! k) ! j)"
    by (rule loop_body_effect)
  then show "\<exists>feat_ind.
         saliency_map self (take_rows (slice_rows t batch) active) (take_rows target active)
           (take_rows (heap t search_space) active) = Inr feat_ind \<and>
         (\<forall>k < length active. \<forall>j < nb_features self.
            slice_rows t' batch ! (active ! k) ! j =
              (if j = fst (feat_ind ! k) \<or> j = snd (feat_ind ! k)
               then (if theta self > 0
                     then min (snd (clip_values (classifier self)))
                            (slice_rows t batch ! (active ! k) ! j + theta self)
                     else max (fst (clip_values (classifier self)))
                            (slice_rows t batch ! (active ! k) ! j + theta self))
               else slice_rows t batch ! (active ! k) ! j)) \<and>
         (\<forall>i < stop batch - start batch. i \<notin> set active \<longrightarrow>
            slice_rows t' batch ! i = slice_rows t batch ! i)"
    unfolding perturbed_eq by (intro exI[of _ fi]) simp
qed

theorem generate_within_clip_values_witness:
  "\<exists>u a' t'.
     generate 17 ex_rnd (ex_attack (3/10) 1) ex_x ex_kwargs (ex_store [[0, 0, 0, 0]]) =
       Some (Inr (\<lparr>buf = 1, shape = [1, 2, 2]\<rparr>, ex_attack (3/10) 1, u)) \<and>
     wf_input (ex_store [[0, 0, 0, 0]]) ex_x \<and> wf_classifier 4 ex_classifier \<and>
     within_clip (ex_attack (3/10) 1) [[0, 0, 0, 0]] \<and>
     within_clip (ex_attack (3/10) 1) (heap u 1) \<and>
     loop_body (ex_attack (3/10) 1) ex_batch 2 3 [1] [0]
       (ex_loop_store (ex_attack (3/10) 1) [0, 0, 0, 0]) = Inr (a', t') \<and>
     batch_ok (ex_attack (3/10) 1) ex_batch 2 3 (ex_loop_store (ex_attack (3/10) 1) [0, 0, 0, 0]) \<and>
     slice_rows t' ex_batch ! 0 ! 0 = 3/10 \<and> slice_rows t' ex_batch ! 0 ! 2 = 0"
proof -
  let ?self = "ex_attack (3/10) 1"
  let ?t = "ex_loop_store ?self [0, 0, 0, 0]"
  from ex_generate_returns obtain u where
    g: "generate 17 ex_rnd ?self ex_x ex_kwargs (ex_store [[0, 0, 0, 0]]) =
          Some (Inr (\<lparr>buf = 1, shape = [1, 2, 2]\<rparr>, ?self, u))" ..
  from ex_loop_body[of "3/10" 1] obtain a' t' where
    lb: "loop_body ?self ex_batch 2 3 [1] [0] ?t = Inr (a', t')" by auto
  have nf: "nb_features ?self = 4" and bs: "batch_size ?self = 128" by (simp_all add: ex_attack_def)
  have wfx: "wf_input (ex_store [[0, 0, 0, 0]]) ex_x" by (simp add: ex_wf_input)
  have np: "np_product (tl (shape ex_x)) = 4" by (simp add: ex_x_def np_product_def)
  have wfc: "wf_classifier (np_product (tl (shape ex_x))) (classifier ?self)"
    unfolding np using wf_ex_classifier by (simp add: ex_attack_def)
  have wf: "wf_classifier (nb_features ?self) (classifier ?self)"
    using wf_ex_classifier by (simp add: ex_attack_def)
  have w0: "within_clip ?self [[0, 0, 0, 0]]"
    by (simp add: within_clip_def ex_attack_def ex_classifier_def)
  have w: "within_clip ?self (heap (ex_store [[0, 0, 0, 0]]) (buf ex_x))"
    using w0 by (simp add: ex_store_def ex_x_def)
  have ok: "batch_ok ?self ex_batch 2 3 ?t"
    by (rule ex_loop_store_facts(1)[OF nf _ bs]) simp
  have sl: "slice_rows ?t ex_batch = [[0, 0, 0, 0]]"
    by (rule ex_loop_store_facts(2)[OF nf _ bs]) simp
  have h2: "heap ?t 2 = [[1, 1, 1, 1]]"
    using ex_loop_store_facts(3)[OF nf _ bs, of "[0, 0, 0, 0]"] by (simp add: ex_eval)
  have act: "\<forall>i \<in> set [0::nat]. i < stop ex_batch - start ex_batch" by (simp add: ex_batch_def)
  have d: "distinct [0::nat]" by simp
  have sal: "saliency_map ?self (take_rows (slice_rows ?t ex_batch) [0]) (take_rows [1] [0])
      (take_rows (heap ?t 2) [0]) = Inr [(1, 0)]"
    unfolding sl h2 by (simp add: ex_eval)
  note inst = generate_within_clip_values[of 17 ex_rnd ?self ex_x ex_kwargs "ex_store [[0, 0, 0, 0]]"
      "\<lparr>buf = 1, shape = [1, 2, 2]\<rparr>" ?self u ex_batch 2 3 "[1]" "[0]" ?t a' t']
  from inst g wfx wfc w have r1: "within_clip ?self (heap u 1)" by simp
  from inst lb ok act d wf sal have cells: "\<forall>j < nb_features ?self.
      slice_rows t' ex_batch ! ([0] ! 0) ! j =
        (if j = fst ([(1::nat, 0::nat)] ! 0) \<or> j = snd ([(1::nat, 0::nat)] ! 0)
         then (if theta ?self > 0
               then min (snd (clip_values (classifier ?self))) (slice_rows ?t ex_batch ! ([0] ! 0) ! j + theta ?self)
               else max (fst (clip_values (classifier ?self))) (slice_rows ?t ex_batch ! ([0] ! 0) ! j + theta ?self))
         else slice_rows ?t ex_batch ! ([0] ! 0) ! j)"
    by auto
  from cells[rule_format, of 0] cells[rule_format, of 2]
  have c: "slice_rows t' ex_batch ! 0 ! 0 = 3/10" "slice_rows t' ex_batch ! 0 ! 2 = 0"
    unfolding sl by (simp_all add: ex_attack_def ex_classifier_def)
  from g wfx wf_ex_classifier w0 r1 lb ok c show ?thesis by blast
qed

text \<open>
  C7. In an iteration every entry of the search space either keeps its value or becomes 0,
  so an entry that is 0 stays 0, and the number of eligible features of a sample does not
  grow. The same holds between the start of the loop of a batch, where the search space has
  just been initialized, and its end.
\<close>

theorem search_space_monotone:
  assumes ok: "batch_ok self batch search_space all_feat t"
    and act: "\<forall>i \<in> set active. i < stop batch - start batch"
    and dist: "distinct active"
  shows "(loop_body self batch search_space all_feat target active t = Inr (active', t') \<longrightarrow>
           (\<forall>i < stop batch - start batch.
              (\<forall>j < nb_features self. heap t' search_space ! i ! j = heap t search_space ! i ! j \<or>
                  heap t' search_space ! i ! j = 0) \<and>
              length (filter (\<lambda>v. v \<noteq> 0) (heap t' search_space ! i))
                \<le> length (filter (\<lambda>v. v \<noteq> 0) (heap t search_space ! i)))) \<and>
         (while_active fuel self batch search_space all_feat target active t = Some (Inr u) \<longrightarrow>
           (\<forall>i < stop batch - start batch.
              (\<forall>j < nb_features self. heap u search_space ! i ! j = heap t search_space ! i ! j \<or>
                  heap u search_space ! i ! j = 0) \<and>
              length (filter (\<lambda>v. v \<noteq> 0) (heap u search_space ! i))
                \<le> length (filter (\<lambda>v. v \<noteq> 0) (heap t search_space ! i))))"
proof -
  let ?n = "stop batch - start batch" and ?F = "nb_features self"
  have count: "\<And>t1 t2. batch_ok self batch search_space all_feat t1 \<Longrightarrow>
      batch_ok self batch search_space all_feat t2 \<Longrightarrow>
      \<forall>i < ?n. \<forall>j < ?F. heap t2 search_space ! i ! j = heap t1 search_space ! i ! j \<or>
          heap t2 search_space ! i ! j = 0 \<Longrightarrow>
      \<forall>i < ?n. length (filter (\<lambda>v. v \<noteq> 0) (heap t2 search_space ! i))
                \<le> length (filter (\<lambda>v. v \<noteq> 0) (heap t1 search_space ! i))"
  proof (intro allI impI)
    fix t1 t2 i
    assume ok1: "batch_ok self batch search_space all_feat t1"
      and ok2: "batch_ok self batch search_space all_feat t2"
      and m: "\<forall>i < ?n. \<forall>j < ?F. heap t2 search_space ! i ! j = heap t1 search_space ! i ! j \<or>
          heap t2 search_space ! i ! j = 0"
      and i: "i < ?n"
    from ok1 i have l1: "length (heap t1 search_space ! i) = ?F" by (simp add: batch_ok_def)
    from ok2 i have l2: "length (heap t2 search_space ! i) = ?F" by (simp add: batch_ok_def)
    show "length (filter (\<lambda>v. v \<noteq> 0) (heap t2 search_space ! i))
                \<le> length (filter (\<lambda>v. v \<noteq> 0) (heap t1 search_space ! i))"
    proof (rule filter_length_mono)
      show "length (heap t2 search_space ! i) = length (heap t1 search_space ! i)"
        using l1 l2 by simp
      show "\<forall>j < length (heap t2 search_space ! i).
          heap t2 search_space ! i ! j \<noteq> 0 \<longrightarrow> heap t1 search_space ! i ! j \<noteq> 0"
      proof (intro allI impI)
        fix j assume j: "j < length (heap t2 search_space ! i)"
          and nz: "heap t2 search_space ! i ! j \<noteq> 0"
        from j l2 have "j < ?F" by simp
        with m i have "heap t2 search_space ! i ! j = heap t1 search_space ! i ! j \<or>
            heap t2 search_space ! i ! j = 0" by blast
        with nz show "heap t1 search_space ! i ! j \<noteq> 0" by auto
      qed
    qed
  qed
  let ?I = "\<lambda>t1. \<forall>i < ?n. \<forall>j < ?F. heap t1 search_space ! i ! j = heap t search_space ! i ! j \<or>
          heap t1 search_space ! i ! j = 0"
  show ?thesis
  proof (intro conjI impI)
    assume lb: "loop_body self batch search_space all_feat target active t = Inr (active', t')"
    from lb ok act obtain fi where ok': "batch_ok self batch search_space all_feat t'"
      by (rule loop_body_InrE)
    note m = loop_body_search_space[OF lb ok act]
    from m count[OF ok ok' m]
    show "\<forall>i < ?n.
              (\<forall>j < ?F. heap t' search_space ! i ! j = heap t search_space ! i ! j \<or>
                  heap t' search_space ! i ! j = 0) \<and>
              length (filter (\<lambda>v. v \<noteq> 0) (heap t' search_space ! i))
                \<le> length (filter (\<lambda>v. v \<noteq> 0) (heap t search_space ! i))"
      by simp
  next
    assume w: "while_active fuel self batch search_space all_feat target active t = Some (Inr u)"
    have I0: "?I t" by simp
    have "batch_ok self batch search_space all_feat u \<and> ?I u"
      using w ok act dist I0
    proof (rule while_active_rule)
      fix a1 t1 a2 t2
      assume ok1: "batch_ok self batch search_space all_feat t1"
        and a1: "\<forall>i \<in> set a1. i < ?n" and I1: "?I t1"
        and lb1: "loop_body self batch search_space all_feat target a1 t1 = Inr (a2, t2)"
      from loop_body_search_space[OF lb1 ok1 a1] I1 show "?I t2" by metis
    qed
    then have oku: "batch_ok self batch search_space all_feat u" and m: "?I u" by blast+
    from m count[OF ok oku m]
    show "\<forall>i < ?n.
              (\<forall>j < ?F. heap u search_space ! i ! j = heap t search_space ! i ! j \<or>
                  heap u search_space ! i ! j = 0) \<and>
              length (filter (\<lambda>v. v \<noteq> 0) (heap u search_space ! i))
                \<le> length (filter (\<lambda>v. v \<noteq> 0) (heap t search_space ! i))"
      by simp
  qed
qed

theorem search_space_monotone_witness:
  "\<exists>a' t'. batch_ok (ex_attack 1 1) ex_batch 2 3 (ex_loop_store (ex_attack 1 1) [0, 0, 0, 0]) \<and>
     (\<forall>i \<in> set [0::nat]. i < stop ex_batch - start ex_batch) \<and> distinct [0::nat] \<and>
     loop_body (ex_attack 1 1) ex_batch 2 3 [1] [0] (ex_loop_store (ex_attack 1 1) [0, 0, 0, 0])
       = Inr (a', t') \<and>
     heap (ex_loop_store (ex_attack 1 1) [0, 0, 0, 0]) 2 = [[1, 1, 1, 1]] \<and>
     length (filter (\<lambda>v. v \<noteq> 0) (heap t' 2 ! 0)) \<le> 4"
proof -
  let ?self = "ex_attack 1 1"
  let ?t = "ex_loop_store ?self [0, 0, 0, 0]"
  from ex_loop_body[of 1 1] obtain a' t' where
    lb: "loop_body ?self ex_batch 2 3 [1] [0] ?t = Inr (a', t')" by auto
  have nf: "nb_features ?self = 4" and bs: "batch_size ?self = 128" by (simp_all add: ex_attack_def)
  have ok: "batch_ok ?self ex_batch 2 3 ?t"
    by (rule ex_loop_store_facts(1)[OF nf _ bs]) simp
  have h2: "heap ?t 2 = [[1, 1, 1, 1]]"
    using ex_loop_store_facts(3)[OF nf _ bs, of "[0, 0, 0, 0]"] by (simp add: ex_eval)
  have act: "\<forall>i \<in> set [0::nat]. i < stop ex_batch - start ex_batch" by (simp add: ex_batch_def)
  have d: "distinct [0::nat]" by simp
  have i: "0 < stop ex_batch - start ex_batch" by (simp add: ex_batch_def)
  from search_space_monotone[OF ok act d, of "[1]" a' t'] lb i
  have "length (filter (\<lambda>v. v \<noteq> 0) (heap t' 2 ! 0)) \<le> length (filter (\<lambda>v. v \<noteq> 0) (heap ?t 2 ! 0))"
    by blast
  then have "length (filter (\<lambda>v. v \<noteq> 0) (heap t' 2 ! 0)) \<le> 4" unfolding h2 by simp
  with ok act d lb h2 show ?thesis by blast
qed

text \<open>
  C8. When \<open>generate\<close> is called without \<open>y\<close>, the target class resolved for a sample is
  never the class predicted for it, and it is a class of the classifier: it is the class
  that the draw of the sample picks among the other classes. For every label, the draws
  \<open>0, ..., n - 1\<close> (\<open>n\<close> the number of other classes) pick each of the other classes exactly
  once, so that a uniform draw gives a uniform target.
\<close>

theorem resolved_target_differs:
  assumes "kw_y kw = None" and "resolve_targets rnd self kw preds = Inr targets"
  shows "length targets = length preds \<and>
         (\<forall>i < length preds.
            targets ! i \<noteq> preds ! i \<and> targets ! i < nb_classes (classifier self) \<and>
            targets ! i = random_choice (rnd i) (other_classes (nb_classes (classifier self)) (preds ! i))) \<and>
         (\<forall>l. bij_betw (\<lambda>r. random_choice r (other_classes (nb_classes (classifier self)) l))
                 {..<length (other_classes (nb_classes (classifier self)) l)}
                 ({..<nb_classes (classifier self)} - {l}))"
proof -
  let ?nb = "nb_classes (classifier self)"
  from assms obtain y where y: "random_targets rnd preds ?nb = Inr y" and t: "targets = np_argmax y"
    by (auto simp: resolve_targets_def split: sum.splits)
  have len: "length targets = length preds"
  proof (cases "preds = []")
    case True
    with y t show ?thesis by (simp add: random_targets_def)
  next
    case False
    then have "0 < length preds" by simp
    from random_targets_Inr(1)[OF y this] t show ?thesis by simp
  qed
  have each: "\<forall>i < length preds.
            targets ! i \<noteq> preds ! i \<and> targets ! i < ?nb \<and>
            targets ! i = random_choice (rnd i) (other_classes ?nb (preds ! i))"
  proof (intro allI impI)
    fix i assume i: "i < length preds"
    let ?c = "random_choice (rnd i) (other_classes ?nb (preds ! i))"
    note r = random_targets_Inr[OF y i]
    from random_choice_mem[OF r(3)] have c: "?c < ?nb" "?c \<noteq> preds ! i"
      by (simp_all add: set_other_classes)
    from t i r(1,2) have "targets ! i = argmax_from (to_categorical ?c ?nb) 0
        [1..<length (to_categorical ?c ?nb)]"
      by (simp add: np_argmax_def)
    with argmax_to_categorical[OF c(1)] have "targets ! i = ?c" by simp
    with c show "targets ! i \<noteq> preds ! i \<and> targets ! i < ?nb \<and> targets ! i = ?c" by simp
  qed
  have bij: "\<forall>l. bij_betw (\<lambda>r. random_choice r (other_classes ?nb l))
                 {..<length (other_classes ?nb l)} ({..<?nb} - {l})"
  proof
    fix l
    let ?xs = "other_classes ?nb l"
    have b: "bij_betw ((!) ?xs) {..<length ?xs} (set ?xs)"
      by (rule bij_betw_nth[OF distinct_other_classes]) simp_all
    have e: "\<And>r. r \<in> {..<length ?xs} \<Longrightarrow> random_choice r ?xs = ?xs ! r"
      by (simp add: random_choice_def)
    have "bij_betw (\<lambda>r. random_choice r ?xs) {..<length ?xs} (set ?xs) =
          bij_betw ((!) ?xs) {..<length ?xs} (set ?xs)"
      by (rule bij_betw_cong) (rule e)
    with b have "bij_betw (\<lambda>r. random_choice r ?xs) {..<length ?xs} (set ?xs)" by simp
    then show "bij_betw (\<lambda>r. random_choice r ?xs) {..<length ?xs} ({..<?nb} - {l})"
      by (simp add: set_other_classes)
  qed
  from len each bij show ?thesis by blast
qed

theorem resolved_target_differs_witness:
  "kw_y (ex_kwargs\<lparr>kw_y := None\<rparr>) = None \<and>
   resolve_targets ex_rnd (ex_attack (3/10) 1) (ex_kwargs\<lparr>kw_y := None\<rparr>) [0, 1] = Inr [1, 0] \<and>
   [1, 0] ! 0 \<noteq> [0, 1::nat] ! 0 \<and> [1, 0] ! 1 \<noteq> [0, 1::nat] ! 1"
proof -
  have k: "kw_y (ex_kwargs\<lparr>kw_y := None\<rparr>) = None" by simp
  have r: "resolve_targets ex_rnd (ex_attack (3/10) 1) (ex_kwargs\<lparr>kw_y := None\<rparr>) [0, 1] = Inr [1, 0]"
    by (simp add: resolve_targets_def random_targets_def other_classes_def random_choice_def
        to_categorical_def np_argmax_def ex_rnd_def ex_attack_def ex_classifier_def upt_rec)
  from resolved_target_differs[OF k r]
  have "[1, 0] ! 0 \<noteq> [0, 1::nat] ! 0" "[1, 0] ! 1 \<noteq> [0, 1::nat] ! 1"
    by simp_all
  with k r show ?thesis by blast
qed



text \<open>
  C10. \<open>generate\<close> does not write to its input. When the call returns, the array of \<open>x\<close>
  holds its original values, the returned array is at an address that was free before the
  call (so it is not the array of \<open>x\<close>) and has the shape of \<open>x\<close>, and every array that
  existed before the call is unchanged.
\<close>

theorem generate_leaves_input:
  assumes "generate fuel rnd self x kw s = Some (Inr (r, self', s'))" and "buf x < nxt s"
  shows "heap s' (buf x) = heap s (buf x) \<and> buf r = nxt s \<and> buf r \<noteq> buf x \<and> shape r = shape x \<and>
         (\<forall>p < nxt s. heap s' p = heap s p)"
  using generate_frame[OF assms(1)] assms(2) by auto

theorem generate_leaves_input_witness:
  "\<exists>t. generate 17 ex_rnd (ex_attack (3/10) 1) ex_x ex_kwargs (ex_store [[0, 0, 0, 0]]) =
          Some (Inr (\<lparr>buf = 1, shape = [1, 2, 2]\<rparr>, ex_attack (3/10) 1, t)) \<and>
        buf ex_x < nxt (ex_store [[0, 0, 0, 0]]) \<and>
        heap t (buf ex_x) = [[0, 0, 0, 0]] \<and> buf ex_x \<noteq> 1"
proof -
  from ex_generate_returns obtain t where
    g: "generate 17 ex_rnd (ex_attack (3/10) 1) ex_x ex_kwargs (ex_store [[0, 0, 0, 0]]) =
          Some (Inr (\<lparr>buf = 1, shape = [1, 2, 2]\<rparr>, ex_attack (3/10) 1, t))" ..
  have b: "buf ex_x < nxt (ex_store [[0, 0, 0, 0]])" by (simp add: ex_store_def ex_x_def)
  from generate_leaves_input[OF g b]
  have "heap t (buf ex_x) = [[0, 0, 0, 0]]" "buf ex_x \<noteq> 1"
    by (simp_all add: ex_store_def ex_x_def)
  with g b show ?thesis by blast
qed

end
